theory Spec2Isabelle
  imports Main "HOL-Library.Sublist"
begin

section \<open>ChatMix: the in-memory room and queue matchmaking engine\<close>

text \<open>
  The development embeds the chat service of \<^verbatim>\<open>internal/service\<close> (the part of
  \<^verbatim>\<open>auth_service.go\<close> after the second \<^verbatim>\<open>package service\<close>) and the room model of
  \<^verbatim>\<open>internal/model/chat.go\<close>. Every operation of the service holds the lock of
  the room map, of the queue, or both, while it reads or writes them, so the
  model runs one operation at a time: a call, or one tick of a background
  loop, is one step on the pair of the room map and the queue.
\<close>

subsection \<open>Time\<close>

text \<open>
  A \<^verbatim>\<open>time.Time\<close> is taken as a count of nanoseconds, with no bound; a
  \<^verbatim>\<open>time.Duration\<close> is a 64-bit signed count of nanoseconds. \<^verbatim>\<open>Time.Sub\<close> of the
  Go library saturates at the least and the greatest duration instead of
  wrapping.
\<close>

type_synonym time = int
type_synonym duration = int

definition maxDuration :: duration where
  "maxDuration = 9223372036854775807"

definition minDuration :: duration where
  "minDuration = - 9223372036854775808"

definition time_Sub :: "time \<Rightarrow> time \<Rightarrow> duration" where
  "time_Sub t u =
     (if t - u > maxDuration then maxDuration
      else if t - u < minDuration then minDuration
      else t - u)"

subsection \<open>What the program does not decide\<close>

text \<open>
  Three things come from outside the program: the order in which a
  \<^verbatim>\<open>range\<close> over the room map enumerates its keys (Go leaves it unspecified and
  it may differ from one loop to the next), the readings of \<^verbatim>\<open>time.Now()\<close>, and
  the random codes returned by \<^verbatim>\<open>generateRandomCode(8)\<close>. The model takes them as
  an explicit environment: \<open>orders e n\<close> is the key order of the \<open>n\<close>-th
  \<^verbatim>\<open>range\<close> loop still to come, \<open>clock e n\<close> the \<open>n\<close>-th reading of the clock still to
  come, \<open>draws e\<close> the random codes still to come. A key order may list keys that
  the map does not hold (they are skipped); it is an enumeration of the map
  when it lists every key of the map.
\<close>

record env =
  orders :: "nat \<Rightarrow> string list"
  clock :: "nat \<Rightarrow> time"
  draws :: "string list"

definition range_order :: "env \<Rightarrow> string list \<times> env" where
  "range_order e = (orders e 0, e\<lparr>orders := (\<lambda>n. orders e (Suc n))\<rparr>)"

definition time_Now :: "env \<Rightarrow> time \<times> env" where
  "time_Now e = (clock e 0, e\<lparr>clock := (\<lambda>n. clock e (Suc n))\<rparr>)"

subsection \<open>The model: \<^verbatim>\<open>internal/model/chat.go\<close>\<close>

record ChatStartResponse =
  Status :: string
  RoomCode :: string
  Position :: int
  Message :: string

record QueueEntry =
  Username :: string
  QueuedAt :: time

record ChatRoom =
  Code :: string
  Users :: "string list"
  CreatedAt :: time
  UpdatedAt :: time

definition IsFull :: "ChatRoom \<Rightarrow> bool" where
  "IsFull r = (length (Users r) \<ge> 2)"

fun HasUser_loop :: "string list \<Rightarrow> string \<Rightarrow> bool" where
  "HasUser_loop [] username = False"
| "HasUser_loop (user # rest) username =
     (if user = username then True else HasUser_loop rest username)"

definition HasUser :: "ChatRoom \<Rightarrow> string \<Rightarrow> bool" where
  "HasUser r username = HasUser_loop (Users r) username"

definition IsWaiting :: "ChatRoom \<Rightarrow> bool" where
  "IsWaiting r = (length (Users r) = 1)"

text \<open>\<^verbatim>\<open>AddUser\<close> reads the clock only when it appends.\<close>

definition AddUser :: "env \<Rightarrow> ChatRoom \<Rightarrow> string \<Rightarrow> ChatRoom \<times> env" where
  "AddUser e r username =
     (if \<not> HasUser r username \<and> \<not> IsFull r then
        (let (now, e') = time_Now e
         in (r\<lparr>Users := Users r @ [username], UpdatedAt := now\<rparr>, e'))
      else (r, e))"

text \<open>
  The index of the first element from which a \<^verbatim>\<open>for i, x := range xs\<close> loop
  leaves through its \<^verbatim>\<open>if\<close>; \<open>i\<close> is the index of the head of the list.
\<close>

fun first_index :: "('a \<Rightarrow> bool) \<Rightarrow> 'a list \<Rightarrow> nat \<Rightarrow> nat option" where
  "first_index P [] i = None"
| "first_index P (x # xs) i = (if P x then Some i else first_index P xs (Suc i))"

text \<open>\<^verbatim>\<open>append(xs[:i], xs[i+1:]...)\<close>\<close>

definition remove_at :: "nat \<Rightarrow> 'a list \<Rightarrow> 'a list" where
  "remove_at i xs = take i xs @ drop (i + 1) xs"

definition RemoveUser :: "env \<Rightarrow> ChatRoom \<Rightarrow> string \<Rightarrow> ChatRoom \<times> env" where
  "RemoveUser e r username =
     (case first_index (\<lambda>user. user = username) (Users r) 0 of
        None \<Rightarrow> (r, e)
      | Some i \<Rightarrow>
          (let (now, e') = time_Now e
           in (r\<lparr>Users := remove_at i (Users r), UpdatedAt := now\<rparr>, e')))"

subsection \<open>The configuration\<close>

record ChatConfig =
  MaxRooms :: int
  QueueTimeout :: duration
  RoomCleanupInterval :: duration

subsection \<open>The service state\<close>

text \<open>
  The map holds pointers to rooms; no room is stored under two keys and no
  pointer leaves the service (\<^verbatim>\<open>GetRoom\<close> and \<^verbatim>\<open>GetWaitingRooms\<close> return
  copies), so the map from codes to room values is the whole state. The two
  locks and the logger carry no data.
\<close>

record chatService =
  rooms :: "string \<rightharpoonup> ChatRoom"
  queue :: "QueueEntry list"
  config :: ChatConfig

text \<open>\<^verbatim>\<open>NewChatService\<close>, without starting the three background loops.\<close>

definition NewChatService :: "ChatConfig \<Rightarrow> chatService" where
  "NewChatService cfg = \<lparr>rooms = Map.empty, queue = [], config = cfg\<rparr>"

text \<open>\<^verbatim>\<open>len(s.rooms)\<close>\<close>

definition len_rooms :: "(string \<rightharpoonup> ChatRoom) \<Rightarrow> int" where
  "len_rooms rs = int (card (dom rs))"

subsection \<open>The queue\<close>

text \<open>
  \<^verbatim>\<open>GetQueuePosition\<close>: the 1-based position of the first entry of the user, 0
  when there is none. A slice is never longer than the greatest \<^verbatim>\<open>int\<close>, so
  \<^verbatim>\<open>i + 1\<close> does not wrap.
\<close>

definition GetQueuePosition :: "chatService \<Rightarrow> string \<Rightarrow> int" where
  "GetQueuePosition s username =
     (case first_index (\<lambda>entry. Username entry = username) (queue s) 0 of
        Some i \<Rightarrow> int i + 1
      | None \<Rightarrow> 0)"

definition GetQueueSize :: "chatService \<Rightarrow> int" where
  "GetQueueSize s = int (length (queue s))"

text \<open>\<^verbatim>\<open>%d\<close> of \<^verbatim>\<open>fmt.Sprintf\<close> on a number that is not negative.\<close>

function decimal :: "nat \<Rightarrow> string" where
  "decimal n =
     (if n < 10 then [''0123456789'' ! n]
      else decimal (n div 10) @ [''0123456789'' ! (n mod 10)])"
  by pat_completeness auto
termination
  by (relation "measure (\<lambda>n. n)") auto

declare decimal.simps [simp del]

definition addToQueue :: "env \<Rightarrow> chatService \<Rightarrow> string \<Rightarrow> ChatStartResponse \<times> chatService" where
  "addToQueue e s username =
     (case first_index (\<lambda>entry. Username entry = username) (queue s) 0 of
        Some i \<Rightarrow>
          (\<lparr>Status = ''queued'', RoomCode = '''', Position = int i + 1,
            Message = ''Already in queue''\<rparr>, s)
      | None \<Rightarrow>
          (let (now, e') = time_Now e;
               q = queue s @ [\<lparr>Username = username, QueuedAt = now\<rparr>]
           in (\<lparr>Status = ''queued'', RoomCode = '''', Position = int (length q),
                Message = ''Added to queue. Position: '' @ decimal (length q)\<rparr>,
               s\<lparr>queue := q\<rparr>)))"

definition removeFromQueue :: "chatService \<Rightarrow> string \<Rightarrow> chatService" where
  "removeFromQueue s username =
     (case first_index (\<lambda>entry. Username entry = username) (queue s) 0 of
        Some i \<Rightarrow> s\<lparr>queue := remove_at i (queue s)\<rparr>
      | None \<Rightarrow> s)"

subsection \<open>Rooms: start, join, leave\<close>

text \<open>
  The first loop of \<^verbatim>\<open>StartChat\<close>: the first room, in the order \<open>ks\<close>, that has
  the user.
\<close>

fun find_user_room :: "string list \<Rightarrow> (string \<rightharpoonup> ChatRoom) \<Rightarrow> string \<Rightarrow> ChatRoom option" where
  "find_user_room [] rs username = None"
| "find_user_room (k # ks) rs username =
     (case rs k of
        None \<Rightarrow> find_user_room ks rs username
      | Some room \<Rightarrow>
          if HasUser room username then Some room
          else find_user_room ks rs username)"

text \<open>
  The loop \<^verbatim>\<open>for _, room := range s.rooms { if room.IsWaiting() { ... } }\<close>: the
  first waiting room in the order \<open>ks\<close>, with its key.
\<close>

fun find_waiting_room :: "string list \<Rightarrow> (string \<rightharpoonup> ChatRoom) \<Rightarrow> (string \<times> ChatRoom) option" where
  "find_waiting_room [] rs = None"
| "find_waiting_room (k # ks) rs =
     (case rs k of
        None \<Rightarrow> find_waiting_room ks rs
      | Some room \<Rightarrow>
          if IsWaiting room then Some (k, room)
          else find_waiting_room ks rs)"

text \<open>
  \<^verbatim>\<open>generateRoomCode\<close> draws codes until one is not a key of the map. The loop
  has no bound; the model stops with \<open>None\<close> when the draws of the environment
  are used up, which stands for a loop that has not returned.
\<close>

fun fresh_code :: "(string \<rightharpoonup> ChatRoom) \<Rightarrow> string list \<Rightarrow> (string \<times> string list) option" where
  "fresh_code rs [] = None"
| "fresh_code rs (code # rest) =
     (if rs code = None then Some (code, rest) else fresh_code rs rest)"

definition generateRoomCode :: "(string \<rightharpoonup> ChatRoom) \<Rightarrow> env \<Rightarrow> (string \<times> env) option" where
  "generateRoomCode rs e =
     (case fresh_code rs (draws e) of
        None \<Rightarrow> None
      | Some (code, rest) \<Rightarrow> Some (code, e\<lparr>draws := rest\<rparr>))"

text \<open>
  The room literal of \<^verbatim>\<open>StartChat\<close> and of \<^verbatim>\<open>tryAssignQueuedUsers\<close>: the
  clock is read twice, for \<^verbatim>\<open>CreatedAt\<close> and then for \<^verbatim>\<open>UpdatedAt\<close>.
\<close>

definition new_room :: "env \<Rightarrow> string \<Rightarrow> string \<Rightarrow> ChatRoom \<times> env" where
  "new_room e code username =
     (let (created, e1) = time_Now e;
          (updated, e2) = time_Now e1
      in (\<lparr>Code = code, Users = [username], CreatedAt = created, UpdatedAt = updated\<rparr>, e2))"

text \<open>
  \<^verbatim>\<open>StartChat\<close>. Its error result is always \<^verbatim>\<open>nil\<close>; the result \<open>None\<close> is
  \<^verbatim>\<open>generateRoomCode\<close> not returning. The loops that only print the rooms
  change nothing and are left out.
\<close>

definition StartChat :: "env \<Rightarrow> chatService \<Rightarrow> string \<Rightarrow> (ChatStartResponse \<times> chatService) option" where
  "StartChat e s username =
     (let (ord1, e1) = range_order e in
      case find_user_room ord1 (rooms s) username of
        Some room \<Rightarrow>
          Some (\<lparr>Status = ''room_assigned'', RoomCode = Code room, Position = 0,
                 Message = ''Already in room''\<rparr>, s)
      | None \<Rightarrow>
          (let (ord2, e2) = range_order e1 in
           case find_waiting_room ord2 (rooms s) of
             Some (k, room) \<Rightarrow>
               (let (room', e3) = AddUser e2 room username
                in Some (\<lparr>Status = ''room_assigned'', RoomCode = Code room', Position = 0,
                          Message = ''Joined existing room''\<rparr>,
                         s\<lparr>rooms := (rooms s)(k \<mapsto> room')\<rparr>))
           | None \<Rightarrow>
               if len_rooms (rooms s) < MaxRooms (config s) then
                 (case generateRoomCode (rooms s) e2 of
                    None \<Rightarrow> None
                  | Some (code, e3) \<Rightarrow>
                      (let (room, e4) = new_room e3 code username
                       in Some (\<lparr>Status = ''room_assigned'', RoomCode = Code room, Position = 0,
                                 Message = ''Created new room''\<rparr>,
                                s\<lparr>rooms := (rooms s)(code \<mapsto> room)\<rparr>)))
               else Some (addToQueue e2 s username)))"

text \<open>The two errors of \<^verbatim>\<open>JoinRoom\<close> are made by \<^verbatim>\<open>fmt.Errorf\<close> from a message.\<close>

datatype error = Errorf string

definition RoomNotFound :: error where
  "RoomNotFound = Errorf ''room not found''"

definition RoomFull :: error where
  "RoomFull = Errorf ''room is full''"

text \<open>
  \<^verbatim>\<open>JoinRoom\<close>: \<open>Inr\<close> is the \<^verbatim>\<open>nil\<close> error, with the state after the call; on
  an error the state is the one before the call.
\<close>

definition JoinRoom :: "env \<Rightarrow> chatService \<Rightarrow> string \<Rightarrow> string \<Rightarrow> error + chatService" where
  "JoinRoom e s roomCode username =
     (case rooms s roomCode of
        None \<Rightarrow> Inl RoomNotFound
      | Some room \<Rightarrow>
          if HasUser room username then Inr s
          else if IsFull room then Inl RoomFull
          else (let (room', e') = AddUser e room username
                in Inr (s\<lparr>rooms := (rooms s)(roomCode \<mapsto> room')\<rparr>)))"

definition LeaveRoom :: "env \<Rightarrow> chatService \<Rightarrow> string \<Rightarrow> string \<Rightarrow> chatService" where
  "LeaveRoom e s roomCode username =
     (case rooms s roomCode of
        None \<Rightarrow> s
      | Some room \<Rightarrow>
          (let (room', e') = RemoveUser e room username
           in if length (Users room') = 0 then s\<lparr>rooms := (rooms s)(roomCode := None)\<rparr>
              else s\<lparr>rooms := (rooms s)(roomCode \<mapsto> room')\<rparr>))"

subsection \<open>The three background sweeps\<close>

text \<open>
  The loop of \<^verbatim>\<open>tryAssignQueuedUsers\<close>, entered with the index \<open>i\<close>. After an
  entry is removed the source decrements \<open>i\<close> and the loop header increments
  it, so the next round has the same index on the shorter queue.
\<close>

function tryAssign_loop :: "env \<Rightarrow> nat \<Rightarrow> chatService \<Rightarrow> chatService option" where
  "tryAssign_loop e i s =
     (if i < length (queue s) then
        (let user = queue s ! i;
             (ord, e1) = range_order e
         in case find_waiting_room ord (rooms s) of
              Some (k, room) \<Rightarrow>
                (let (room', e2) = AddUser e1 room (Username user)
                 in tryAssign_loop e2 i
                      (s\<lparr>rooms := (rooms s)(k \<mapsto> room'),
                         queue := remove_at i (queue s)\<rparr>))
            | None \<Rightarrow>
                if len_rooms (rooms s) < MaxRooms (config s) then
                  (case generateRoomCode (rooms s) e1 of
                     None \<Rightarrow> None
                   | Some (code, e2) \<Rightarrow>
                       (let (room, e3) = new_room e2 code (Username user)
                        in tryAssign_loop e3 i
                             (s\<lparr>rooms := (rooms s)(code \<mapsto> room),
                                queue := remove_at i (queue s)\<rparr>)))
                else tryAssign_loop e1 (i + 1) s)
      else Some s)"
  by pat_completeness auto
termination
  by (relation "measure (\<lambda>(e, i, s). length (queue s) - i)")
     (auto simp: remove_at_def)

text \<open>One tick of \<^verbatim>\<open>processQueue\<close>.\<close>

definition tryAssignQueuedUsers :: "env \<Rightarrow> chatService \<Rightarrow> chatService option" where
  "tryAssignQueuedUsers e s =
     (if length (queue s) = 0 then Some s else tryAssign_loop e 0 s)"

text \<open>
  The body of the ticker loop of \<^verbatim>\<open>cleanupExpiredQueueEntries\<close>: the entries
  kept are appended to \<^verbatim>\<open>validEntries\<close> one by one.
\<close>

fun validEntries_loop :: "time \<Rightarrow> duration \<Rightarrow> QueueEntry list \<Rightarrow> QueueEntry list \<Rightarrow> QueueEntry list" where
  "validEntries_loop now timeout [] validEntries = validEntries"
| "validEntries_loop now timeout (entry # rest) validEntries =
     (if time_Sub now (QueuedAt entry) < timeout
      then validEntries_loop now timeout rest (validEntries @ [entry])
      else validEntries_loop now timeout rest validEntries)"

definition cleanupExpiredQueueEntries :: "env \<Rightarrow> chatService \<Rightarrow> chatService" where
  "cleanupExpiredQueueEntries e s =
     (let (now, e') = time_Now e
      in s\<lparr>queue := validEntries_loop now (QueueTimeout (config s)) (queue s) []\<rparr>)"

text \<open>
  The body of the ticker loop of \<^verbatim>\<open>cleanupLonelyRooms\<close>: the codes to delete
  are collected in the order of the \<^verbatim>\<open>range\<close>, then deleted one by one.
\<close>

fun roomsToDelete_loop :: "time \<Rightarrow> duration \<Rightarrow> string list \<Rightarrow> (string \<rightharpoonup> ChatRoom) \<Rightarrow> string list \<Rightarrow> string list" where
  "roomsToDelete_loop now interval [] rs roomsToDelete = roomsToDelete"
| "roomsToDelete_loop now interval (code # ks) rs roomsToDelete =
     (case rs code of
        None \<Rightarrow> roomsToDelete_loop now interval ks rs roomsToDelete
      | Some room \<Rightarrow>
          if length (Users room) = 1 \<and> time_Sub now (UpdatedAt room) \<ge> interval
          then roomsToDelete_loop now interval ks rs (roomsToDelete @ [code])
          else roomsToDelete_loop now interval ks rs roomsToDelete)"

fun delete_loop :: "string list \<Rightarrow> (string \<rightharpoonup> ChatRoom) \<Rightarrow> (string \<rightharpoonup> ChatRoom)" where
  "delete_loop [] rs = rs"
| "delete_loop (code # rest) rs = delete_loop rest (rs(code := None))"

definition cleanupLonelyRooms :: "env \<Rightarrow> chatService \<Rightarrow> chatService" where
  "cleanupLonelyRooms e s =
     (let (now, e1) = time_Now e;
          (ord, e2) = range_order e1;
          roomsToDelete =
            roomsToDelete_loop now (RoomCleanupInterval (config s)) ord (rooms s) []
      in s\<lparr>rooms := delete_loop roomsToDelete (rooms s)\<rparr>)"

subsection \<open>Reachable states\<close>

text \<open>
  The states the service can be in: the one \<^verbatim>\<open>NewChatService\<close> makes, and
  every state one completed operation leads to from a reachable state, under
  any environment.
\<close>

inductive reachable :: "ChatConfig \<Rightarrow> chatService \<Rightarrow> bool" for cfg :: ChatConfig where
  reach_new: "reachable cfg (NewChatService cfg)"
| reach_StartChat:
    "reachable cfg s \<Longrightarrow> StartChat e s username = Some (resp, s') \<Longrightarrow> reachable cfg s'"
| reach_JoinRoom:
    "reachable cfg s \<Longrightarrow> JoinRoom e s roomCode username = Inr s' \<Longrightarrow> reachable cfg s'"
| reach_LeaveRoom:
    "reachable cfg s \<Longrightarrow> reachable cfg (LeaveRoom e s roomCode username)"
| reach_tryAssignQueuedUsers:
    "reachable cfg s \<Longrightarrow> tryAssignQueuedUsers e s = Some s' \<Longrightarrow> reachable cfg s'"
| reach_cleanupExpiredQueueEntries:
    "reachable cfg s \<Longrightarrow> reachable cfg (cleanupExpiredQueueEntries e s)"
| reach_cleanupLonelyRooms:
    "reachable cfg s \<Longrightarrow> reachable cfg (cleanupLonelyRooms e s)"

declare tryAssign_loop.simps [simp del]

subsection \<open>The promotion sweep as the specification words it\<close>

text \<open>
  The specification describes one tick of the promotion sweep as a single pass
  over the queued entries, front to back: an entry joins a waiting room when
  there is one, else gets a new room when the registry is under capacity, else
  stays queued. \<open>promotion_pass\<close> is that description, as a recursion over the
  entries that returns the rooms after the pass and the entries that stay; it
  is compared below with the index loop of the source.
\<close>

fun promotion_pass :: "env \<Rightarrow> ChatConfig \<Rightarrow> (string \<rightharpoonup> ChatRoom) \<Rightarrow> QueueEntry list \<Rightarrow>
    ((string \<rightharpoonup> ChatRoom) \<times> QueueEntry list) option" where
  "promotion_pass e cfg rs [] = Some (rs, [])"
| "promotion_pass e cfg rs (entry # rest) =
     (let (ord, e1) = range_order e
      in case find_waiting_room ord rs of
           Some (k, room) \<Rightarrow>
             (let (room', e2) = AddUser e1 room (Username entry)
              in promotion_pass e2 cfg (rs(k \<mapsto> room')) rest)
         | None \<Rightarrow>
             if len_rooms rs < MaxRooms cfg then
               (case generateRoomCode rs e1 of
                  None \<Rightarrow> None
                | Some (code, e2) \<Rightarrow>
                    (let (room, e3) = new_room e2 code (Username entry)
                     in promotion_pass e3 cfg (rs(code \<mapsto> room)) rest))
             else
               (case promotion_pass e1 cfg rs rest of
                  None \<Rightarrow> None
                | Some (rs', kept) \<Rightarrow> Some (rs', entry # kept)))"

subsection \<open>The room capacity invariant\<close>

text \<open>
  A room of a reachable state has one or two members, and no member twice.
\<close>

definition room_ok :: "ChatRoom \<Rightarrow> bool" where
  "room_ok r = (1 \<le> length (Users r) \<and> length (Users r) \<le> 2 \<and> distinct (Users r))"

definition rooms_ok :: "(string \<rightharpoonup> ChatRoom) \<Rightarrow> bool" where
  "rooms_ok rs = (\<forall>k r. rs k = Some r \<longrightarrow> room_ok r)"

subsection \<open>Well-formed states\<close>

text \<open>
  What the type of the model leaves open and every reachable state has: the
  registry is finite, as a Go map is, so that \<open>len_rooms\<close> counts its rooms;
  each room is stored under its own code; no user has two entries in the
  queue.
\<close>

definition rooms_wf :: "(string \<rightharpoonup> ChatRoom) \<Rightarrow> bool" where
  "rooms_wf rs = (finite (dom rs) \<and> (\<forall>k r. rs k = Some r \<longrightarrow> Code r = k))"

definition state_wf :: "chatService \<Rightarrow> bool" where
  "state_wf s = (rooms_wf (rooms s) \<and> distinct (map Username (queue s)))"

subsection \<open>A scenario\<close>

text \<open>
  The scenario of the specification: one room at most; \<open>u1\<close> starts a chat and
  gets a new room, \<open>u2\<close> joins it, \<open>u3\<close> is queued.
\<close>

definition cfg1 :: ChatConfig where
  "cfg1 = \<lparr>MaxRooms = 1, QueueTimeout = 300000000000, RoomCleanupInterval = 60000000000\<rparr>"

definition env1 :: env where
  "env1 = \<lparr>orders = (\<lambda>n. [''ABCDEFGH'']), clock = (\<lambda>n. 1000 + int n), draws = [''ABCDEFGH'']\<rparr>"

definition room1 :: ChatRoom where
  "room1 = \<lparr>Code = ''ABCDEFGH'', Users = [''u1''], CreatedAt = 1000, UpdatedAt = 1001\<rparr>"

definition room2 :: ChatRoom where
  "room2 = \<lparr>Code = ''ABCDEFGH'', Users = [''u1'', ''u2''], CreatedAt = 1000, UpdatedAt = 1000\<rparr>"

definition state1 :: chatService where
  "state1 = \<lparr>rooms = [''ABCDEFGH'' \<mapsto> room1], queue = [], config = cfg1\<rparr>"

definition state2 :: chatService where
  "state2 = \<lparr>rooms = [''ABCDEFGH'' \<mapsto> room2], queue = [], config = cfg1\<rparr>"

definition state3 :: chatService where
  "state3 = \<lparr>rooms = [''ABCDEFGH'' \<mapsto> room2],
             queue = [\<lparr>Username = ''u3'', QueuedAt = 1000\<rparr>], config = cfg1\<rparr>"

text \<open>
  A queue of four entries, read by the expiry sweep at the time
  \<open>500000000000\<close> with a timeout of \<open>300000000000\<close>: the entries of \<open>a\<close> (age
  equal to the timeout) and \<open>c\<close> (older) are expired, those of \<open>b\<close> and \<open>d\<close>
  are not.
\<close>

definition env2 :: env where
  "env2 = \<lparr>orders = (\<lambda>n. [''ABCDEFGH'', ''IJKLMNOP'']), clock = (\<lambda>n. 500000000000 + int n),
           draws = [''ABCDEFGH'', ''IJKLMNOP'']\<rparr>"

definition queue_state :: chatService where
  "queue_state =
     \<lparr>rooms = [''ABCDEFGH'' \<mapsto> room2],
      queue = [\<lparr>Username = ''a'', QueuedAt = 200000000000\<rparr>,
               \<lparr>Username = ''b'', QueuedAt = 200000000001\<rparr>,
               \<lparr>Username = ''c'', QueuedAt = 0\<rparr>,
               \<lparr>Username = ''d'', QueuedAt = 499999999999\<rparr>],
      config = cfg1\<rparr>"

text \<open>
  Three rooms read by the reaper at the time \<open>500000000000\<close> with an interval of
  \<open>60000000000\<close>: a full room that is old, a lonely room that is as old as
  the interval, and a lonely room that is younger.
\<close>

definition room3 :: ChatRoom where
  "room3 = \<lparr>Code = ''IJKLMNOP'', Users = [''u4''], CreatedAt = 2000, UpdatedAt = 440000000000\<rparr>"

definition room4 :: ChatRoom where
  "room4 = \<lparr>Code = ''QRSTUVWX'', Users = [''u5''], CreatedAt = 2000, UpdatedAt = 440000000001\<rparr>"

definition env3 :: env where
  "env3 = \<lparr>orders = (\<lambda>n. [''QRSTUVWX'', ''ABCDEFGH'', ''IJKLMNOP'']),
           clock = (\<lambda>n. 500000000000 + int n), draws = [''ABCDEFGH'', ''YZ234567'']\<rparr>"

definition reaper_state :: chatService where
  "reaper_state =
     \<lparr>rooms = [''ABCDEFGH'' \<mapsto> room2, ''IJKLMNOP'' \<mapsto> room3, ''QRSTUVWX'' \<mapsto> room4],
      queue = [], config = cfg1\<lparr>MaxRooms := 3\<rparr>\<rparr>"

text \<open>
  The scenario continued: \<open>u1\<close> and \<open>u2\<close> have left, the room is gone, and the entry
  of \<open>u3\<close> is still in the queue.
\<close>

definition freed_state :: chatService where
  "freed_state = \<lparr>rooms = Map.empty, queue = [\<lparr>Username = ''u3'', QueuedAt = 1000\<rparr>],
                  config = cfg1\<rparr>"

text \<open>
  A user in two rooms: with two rooms allowed, \<open>a\<close> starts a chat and \<open>b\<close> joins
  the room, \<open>c\<close> starts a chat and gets a second room, and \<open>a\<close> joins that room
  by its code.
\<close>

definition cfg2 :: ChatConfig where
  "cfg2 = cfg1\<lparr>MaxRooms := 2\<rparr>"

definition env4 :: env where
  "env4 = \<lparr>orders = (\<lambda>n. [''IJKLMNOP'', ''ABCDEFGH'']), clock = (\<lambda>n. 1000 + int n),
           draws = [''ABCDEFGH'', ''IJKLMNOP'']\<rparr>"

definition two_rooms_state :: chatService where
  "two_rooms_state =
     \<lparr>rooms = [''ABCDEFGH'' \<mapsto>
                 \<lparr>Code = ''ABCDEFGH'', Users = [''a'', ''b''], CreatedAt = 1000, UpdatedAt = 1000\<rparr>,
               ''IJKLMNOP'' \<mapsto>
                 \<lparr>Code = ''IJKLMNOP'', Users = [''c'', ''a''], CreatedAt = 1000, UpdatedAt = 1000\<rparr>],
      queue = [], config = cfg2\<rparr>"

text \<open>
  A promotion sweep with one room allowed, no room and the queue \<open>x\<close>, \<open>y\<close>, \<open>z\<close>:
  \<open>x\<close> gets a new room, \<open>y\<close> joins it, \<open>z\<close> stays queued.
\<close>

definition sweep_state :: chatService where
  "sweep_state =
     \<lparr>rooms = Map.empty,
      queue = [\<lparr>Username = ''x'', QueuedAt = 10\<rparr>, \<lparr>Username = ''y'', QueuedAt = 20\<rparr>,
               \<lparr>Username = ''z'', QueuedAt = 30\<rparr>],
      config = cfg1\<rparr>"

definition env5 :: env where
  "env5 = \<lparr>orders = (\<lambda>n. [''ABCDEFGH'', ''IJKLMNOP'', ''QRSTUVWX'']),
           clock = (\<lambda>n. 1000 + int n),
           draws = [''ABCDEFGH'', ''IJKLMNOP'', ''QRSTUVWX'']\<rparr>"

text \<open>
  A promotion sweep that promotes the front entry only: one room allowed, \<open>u1\<close>
  waiting in it, and the queue \<open>A\<close>, \<open>B\<close>, \<open>C\<close>.
\<close>

definition abc_state :: chatService where
  "abc_state =
     \<lparr>rooms = [''ABCDEFGH'' \<mapsto> room1],
      queue = [\<lparr>Username = ''A'', QueuedAt = 1000\<rparr>, \<lparr>Username = ''B'', QueuedAt = 1000\<rparr>,
               \<lparr>Username = ''C'', QueuedAt = 1000\<rparr>],
      config = cfg1\<rparr>"

definition abc_state' :: chatService where
  "abc_state' =
     \<lparr>rooms = [''ABCDEFGH'' \<mapsto> room1\<lparr>Users := [''u1'', ''A''], UpdatedAt := 1000\<rparr>],
      queue = [\<lparr>Username = ''B'', QueuedAt = 1000\<rparr>, \<lparr>Username = ''C'', QueuedAt = 1000\<rparr>],
      config = cfg1\<rparr>"

section \<open>Properties\<close>

subsection \<open>The loops of the model\<close>

lemma HasUser_loop_set: "HasUser_loop xs u = (u \<in> set xs)"
  by (induction xs) auto

lemma HasUser_set: "HasUser r u = (u \<in> set (Users r))"
  by (simp add: HasUser_def HasUser_loop_set)

lemma first_index_None: "(first_index P xs i = None) = (\<forall>x \<in> set xs. \<not> P x)"
  by (induction xs arbitrary: i) auto

lemma first_index_Some:
  "first_index P xs i = Some j \<Longrightarrow>
     i \<le> j \<and> j - i < length xs \<and> P (xs ! (j - i)) \<and> (\<forall>n < j - i. \<not> P (xs ! n))"
proof (induction xs arbitrary: i)
  case Nil
  then show ?case by simp
next
  case (Cons x xs)
  show ?case
  proof (cases "P x")
    case True
    with Cons.prems show ?thesis by simp
  next
    case False
    with Cons.prems have "first_index P xs (Suc i) = Some j" by simp
    from Cons.IH[OF this]
    have a: "Suc i \<le> j" and b: "j - Suc i < length xs" and c: "P (xs ! (j - Suc i))"
      and d: "\<forall>n < j - Suc i. \<not> P (xs ! n)" by simp_all
    from a have e: "j - i = Suc (j - Suc i)" by simp
    have "\<forall>n < j - i. \<not> P ((x # xs) ! n)"
    proof (intro allI impI)
      fix n assume "n < j - i"
      with e d False show "\<not> P ((x # xs) ! n)" by (cases n) auto
    qed
    with a b c e show ?thesis by simp
  qed
qed

lemma first_index_shift: "first_index P xs (Suc i) = map_option Suc (first_index P xs i)"
  by (induction xs arbitrary: i) auto

lemma remove_at_first_index:
  "first_index (\<lambda>x. x = u) xs 0 = Some i \<Longrightarrow> remove_at i xs = remove1 u xs"
proof (induction xs arbitrary: i)
  case Nil
  then show ?case by simp
next
  case (Cons x xs)
  show ?case
  proof (cases "x = u")
    case True
    with Cons.prems show ?thesis by (simp add: remove_at_def)
  next
    case False
    with Cons.prems obtain j where j: "first_index (\<lambda>x. x = u) xs 0 = Some j" and i: "i = Suc j"
      by (auto simp: first_index_shift)
    from Cons.IH[OF j] False i show ?thesis by (simp add: remove_at_def)
  qed
qed

lemma length_remove_at: "i < length xs \<Longrightarrow> length (remove_at i xs) = length xs - 1"
  by (simp add: remove_at_def)

lemma RemoveUser_eq:
  "RemoveUser e r u =
     (if u \<in> set (Users r)
      then (r\<lparr>Users := remove1 u (Users r), UpdatedAt := clock e 0\<rparr>,
            e\<lparr>clock := (\<lambda>n. clock e (Suc n))\<rparr>)
      else (r, e))"
proof (cases "first_index (\<lambda>user. user = u) (Users r) 0")
  case None
  then have "u \<notin> set (Users r)"
    using first_index_None[of "\<lambda>user. user = u" "Users r" 0] by auto
  with None show ?thesis by (simp add: RemoveUser_def)
next
  case (Some i)
  then have "u \<in> set (Users r)"
    using first_index_None[of "\<lambda>user. user = u" "Users r" 0] by auto
  with Some show ?thesis
    by (simp add: RemoveUser_def remove_at_first_index time_Now_def)
qed

lemma AddUser_eq:
  "AddUser e r u =
     (if u \<notin> set (Users r) \<and> length (Users r) < 2
      then (r\<lparr>Users := Users r @ [u], UpdatedAt := clock e 0\<rparr>,
            e\<lparr>clock := (\<lambda>n. clock e (Suc n))\<rparr>)
      else (r, e))"
  by (auto simp: AddUser_def HasUser_set IsFull_def time_Now_def)

lemma new_room_eq:
  "new_room e code u =
     (\<lparr>Code = code, Users = [u], CreatedAt = clock e 0, UpdatedAt = clock e 1\<rparr>,
      e\<lparr>clock := (\<lambda>n. clock e (Suc (Suc n)))\<rparr>)"
  by (simp add: new_room_def time_Now_def)

lemma find_user_room_Some:
  "find_user_room ks rs u = Some r \<Longrightarrow> \<exists>k \<in> set ks. rs k = Some r \<and> u \<in> set (Users r)"
  by (induction ks) (auto simp: HasUser_set split: option.splits if_splits)

lemma find_user_room_None:
  "(find_user_room ks rs u = None) = (\<forall>k \<in> set ks. \<forall>r. rs k = Some r \<longrightarrow> u \<notin> set (Users r))"
  by (induction ks) (auto simp: HasUser_set split: option.splits)

lemma find_waiting_room_Some:
  "find_waiting_room ks rs = Some (k, r) \<Longrightarrow> k \<in> set ks \<and> rs k = Some r \<and> length (Users r) = 1"
  by (induction ks) (auto simp: IsWaiting_def split: option.splits if_splits)

lemma find_waiting_room_None:
  "(find_waiting_room ks rs = None) = (\<forall>k \<in> set ks. \<forall>r. rs k = Some r \<longrightarrow> length (Users r) \<noteq> 1)"
  by (induction ks) (auto simp: IsWaiting_def split: option.splits)

lemma fresh_code_Some:
  "fresh_code rs cs = Some (c, rest) \<Longrightarrow> rs c = None \<and> c \<in> set cs"
  by (induction cs) (auto split: if_splits)

lemma fresh_code_None: "(fresh_code rs cs = None) = (\<forall>c \<in> set cs. rs c \<noteq> None)"
  by (induction cs) auto

lemma generateRoomCode_Some:
  "generateRoomCode rs e = Some (c, e') \<Longrightarrow> rs c = None \<and> c \<in> set (draws e)"
  by (auto simp: generateRoomCode_def split: option.splits dest: fresh_code_Some)

lemma generateRoomCode_None:
  "(generateRoomCode rs e = None) = (\<forall>c \<in> set (draws e). rs c \<noteq> None)"
  by (auto simp: generateRoomCode_def fresh_code_None split: option.splits
      dest: fresh_code_Some)

subsection \<open>Every operation keeps the rooms within capacity\<close>

lemma rooms_ok_upd: "rooms_ok rs \<Longrightarrow> room_ok r \<Longrightarrow> rooms_ok (rs(k \<mapsto> r))"
  by (simp add: rooms_ok_def)

lemma rooms_ok_del: "rooms_ok rs \<Longrightarrow> rooms_ok (rs(k := None))"
  by (simp add: rooms_ok_def)

lemma rooms_okD: "rooms_ok rs \<Longrightarrow> rs k = Some r \<Longrightarrow> room_ok r"
  by (simp add: rooms_ok_def)

lemma AddUser_ok: "room_ok r \<Longrightarrow> AddUser e r u = (r', e') \<Longrightarrow> room_ok r'"
  by (auto simp: AddUser_eq room_ok_def split: if_splits)

lemma new_room_ok: "new_room e c u = (r, e') \<Longrightarrow> room_ok r"
  by (auto simp: new_room_eq room_ok_def)

lemma addToQueue_rooms: "rooms (snd (addToQueue e s u)) = rooms s"
  by (simp add: addToQueue_def time_Now_def Let_def split: option.splits)

lemma StartChat_ok:
  assumes ok: "rooms_ok (rooms s)" and st: "StartChat e s u = Some (resp, s')"
  shows "rooms_ok (rooms s')"
proof (cases "find_user_room (orders e 0) (rooms s) u")
  case (Some r)
  with st have "s' = s" by (simp add: StartChat_def range_order_def)
  with ok show ?thesis by simp
next
  case nouser: None
  show ?thesis
  proof (cases "find_waiting_room (orders e 1) (rooms s)")
    case (Some kr)
    obtain k r where kr: "kr = (k, r)" by (cases kr)
    obtain r' e' where au: "AddUser (e\<lparr>orders := \<lambda>n. orders e (Suc (Suc n))\<rparr>) r u = (r', e')"
      by (cases "AddUser (e\<lparr>orders := \<lambda>n. orders e (Suc (Suc n))\<rparr>) r u")
    from Some kr have "rooms s k = Some r" by (simp add: find_waiting_room_Some)
    with ok have "room_ok r" by (rule rooms_okD)
    then have "room_ok r'" using au by (rule AddUser_ok)
    moreover from st nouser Some kr au have "rooms s' = (rooms s)(k \<mapsto> r')"
      by (auto simp: StartChat_def range_order_def)
    ultimately show ?thesis using ok by (simp add: rooms_ok_upd)
  next
    case nowait: None
    show ?thesis
    proof (cases "len_rooms (rooms s) < MaxRooms (config s)")
      case True
      with st nouser nowait obtain code e3 where
        g: "generateRoomCode (rooms s) (e\<lparr>orders := \<lambda>n. orders e (Suc (Suc n))\<rparr>) = Some (code, e3)"
        by (auto simp: StartChat_def range_order_def split: option.splits)
      obtain r e4 where nr: "new_room e3 code u = (r, e4)" by (cases "new_room e3 code u")
      from nr have "room_ok r" by (rule new_room_ok)
      moreover from st nouser nowait True g nr have "rooms s' = (rooms s)(code \<mapsto> r)"
        by (auto simp: StartChat_def range_order_def)
      ultimately show ?thesis using ok by (simp add: rooms_ok_upd)
    next
      case False
      with st nouser nowait have "s' = snd (addToQueue (e\<lparr>orders := \<lambda>n. orders e (Suc (Suc n))\<rparr>) s u)"
        by (auto simp: StartChat_def range_order_def)
      with ok show ?thesis by (simp add: addToQueue_rooms)
    qed
  qed
qed

lemma JoinRoom_ok:
  assumes ok: "rooms_ok (rooms s)" and j: "JoinRoom e s code u = Inr s'"
  shows "rooms_ok (rooms s')"
proof (cases "rooms s code")
  case None
  with j show ?thesis by (simp add: JoinRoom_def)
next
  case (Some r)
  obtain r' e' where au: "AddUser e r u = (r', e')" by (cases "AddUser e r u")
  from ok Some have "room_ok r" by (rule rooms_okD)
  then have r': "room_ok r'" using au by (rule AddUser_ok)
  from j Some au have "s' = s \<or> rooms s' = (rooms s)(code \<mapsto> r')"
    by (auto simp: JoinRoom_def split: if_splits)
  with ok r' show ?thesis by (auto simp: rooms_ok_upd)
qed

lemma LeaveRoom_ok:
  assumes ok: "rooms_ok (rooms s)"
  shows "rooms_ok (rooms (LeaveRoom e s code u))"
proof (cases "rooms s code")
  case None
  with ok show ?thesis by (simp add: LeaveRoom_def)
next
  case (Some r)
  from ok Some have r: "room_ok r" by (rule rooms_okD)
  show ?thesis
  proof (cases "u \<in> set (Users r)")
    case False
    from r have "Users r \<noteq> []" by (auto simp: room_ok_def)
    with Some False have "LeaveRoom e s code u = s\<lparr>rooms := (rooms s)(code \<mapsto> r)\<rparr>"
      by (simp add: LeaveRoom_def RemoveUser_eq)
    with ok r show ?thesis by (simp add: rooms_ok_upd)
  next
    case True
    let ?r = "r\<lparr>Users := remove1 u (Users r), UpdatedAt := clock e 0\<rparr>"
    from True have len: "length (remove1 u (Users r)) = length (Users r) - 1"
      by (simp add: length_remove1)
    show ?thesis
    proof (cases "remove1 u (Users r) = []")
      case True
      with Some \<open>u \<in> set (Users r)\<close> have "rooms (LeaveRoom e s code u) = (rooms s)(code := None)"
        by (simp add: LeaveRoom_def RemoveUser_eq)
      with ok show ?thesis by (simp add: rooms_ok_del)
    next
      case False
      with Some \<open>u \<in> set (Users r)\<close> have "rooms (LeaveRoom e s code u) = (rooms s)(code \<mapsto> ?r)"
        by (simp add: LeaveRoom_def RemoveUser_eq)
      moreover have "room_ok ?r"
      proof -
        from r have "distinct (remove1 u (Users r))" by (simp add: room_ok_def)
        moreover from False have "1 \<le> length (remove1 u (Users r))"
          by (cases "remove1 u (Users r)") auto
        moreover from len r have "length (remove1 u (Users r)) \<le> 2"
          by (auto simp: room_ok_def)
        ultimately show ?thesis by (simp add: room_ok_def)
      qed
      ultimately show ?thesis using ok by (simp add: rooms_ok_upd)
    qed
  qed
qed

lemma delete_loop_apply: "delete_loop ks rs k = (if k \<in> set ks then None else rs k)"
  by (induction ks arbitrary: rs) auto

lemma cleanupLonelyRooms_ok: "rooms_ok (rooms s) \<Longrightarrow> rooms_ok (rooms (cleanupLonelyRooms e s))"
  by (auto simp: cleanupLonelyRooms_def time_Now_def range_order_def rooms_ok_def
      delete_loop_apply split: if_splits)

lemma cleanupExpiredQueueEntries_rooms: "rooms (cleanupExpiredQueueEntries e s) = rooms s"
  by (simp add: cleanupExpiredQueueEntries_def time_Now_def)

subsection \<open>The index loop of the promotion sweep is the single pass\<close>

lemma take_remove_at: "i < length xs \<Longrightarrow> take i (remove_at i xs) = take i xs"
  by (simp add: remove_at_def)

lemma drop_remove_at: "i < length xs \<Longrightarrow> drop i (remove_at i xs) = drop (Suc i) xs"
  by (simp add: remove_at_def)

lemma tryAssign_loop_pass:
  "tryAssign_loop e i s =
     (case promotion_pass e (config s) (rooms s) (drop i (queue s)) of
        None \<Rightarrow> None
      | Some (rs', kept) \<Rightarrow> Some (s\<lparr>rooms := rs', queue := take i (queue s) @ kept\<rparr>))"
proof (induction "length (queue s) - i" arbitrary: e i s rule: less_induct)
  case less
  show ?case
  proof (cases "i < length (queue s)")
    case False
    then show ?thesis by (simp add: tryAssign_loop.simps[of e i s])
  next
    case True
    let ?user = "queue s ! i"
    from True have dr: "drop i (queue s) = ?user # drop (Suc i) (queue s)"
      by (simp add: Cons_nth_drop_Suc)
    obtain ord e1 where ro: "range_order e = (ord, e1)" by (cases "range_order e")
    show ?thesis
    proof (cases "find_waiting_room ord (rooms s)")
      case (Some kr)
      obtain k room where kr: "kr = (k, room)" by (cases kr)
      obtain room' e2 where au: "AddUser e1 room (Username ?user) = (room', e2)"
        by (cases "AddUser e1 room (Username ?user)")
      let ?s = "s\<lparr>rooms := (rooms s)(k \<mapsto> room'), queue := remove_at i (queue s)\<rparr>"
      from True have "length (queue ?s) - i < length (queue s) - i"
        by (simp add: length_remove_at)
      from less.hyps[OF this, of e2]
      have "tryAssign_loop e2 i ?s =
              (case promotion_pass e2 (config s) ((rooms s)(k \<mapsto> room')) (drop (Suc i) (queue s)) of
                 None \<Rightarrow> None
               | Some (rs', kept) \<Rightarrow> Some (s\<lparr>rooms := rs', queue := take i (queue s) @ kept\<rparr>))"
        using True by (simp add: take_remove_at drop_remove_at split: option.splits)
      with True ro Some kr au dr show ?thesis
        by (simp add: tryAssign_loop.simps[of e i s])
    next
      case None
      show ?thesis
      proof (cases "len_rooms (rooms s) < MaxRooms (config s)")
        case lt: True
        show ?thesis
        proof (cases "generateRoomCode (rooms s) e1")
          case gn: None
          with True ro None lt dr show ?thesis
            by (simp add: tryAssign_loop.simps[of e i s])
        next
          case (Some ce)
          obtain code e2 where ce: "ce = (code, e2)" by (cases ce)
          obtain room e3 where nr: "new_room e2 code (Username ?user) = (room, e3)"
            by (cases "new_room e2 code (Username ?user)")
          let ?s = "s\<lparr>rooms := (rooms s)(code \<mapsto> room), queue := remove_at i (queue s)\<rparr>"
          from True have "length (queue ?s) - i < length (queue s) - i"
            by (simp add: length_remove_at)
          from less.hyps[OF this, of e3]
          have "tryAssign_loop e3 i ?s =
                  (case promotion_pass e3 (config s) ((rooms s)(code \<mapsto> room)) (drop (Suc i) (queue s)) of
                     None \<Rightarrow> None
                   | Some (rs', kept) \<Rightarrow> Some (s\<lparr>rooms := rs', queue := take i (queue s) @ kept\<rparr>))"
            using True by (simp add: take_remove_at drop_remove_at split: option.splits)
          with True ro None lt Some ce nr dr show ?thesis
            by (simp add: tryAssign_loop.simps[of e i s])
        qed
      next
        case ge: False
        from True have "length (queue s) - (i + 1) < length (queue s) - i" by simp
        from less.hyps[OF this, of e1]
        have "tryAssign_loop e1 (i + 1) s =
                (case promotion_pass e1 (config s) (rooms s) (drop (Suc i) (queue s)) of
                   None \<Rightarrow> None
                 | Some (rs', kept) \<Rightarrow>
                     Some (s\<lparr>rooms := rs', queue := take i (queue s) @ ?user # kept\<rparr>))"
          using True by (simp add: take_Suc_conv_app_nth split: option.splits)
        with True ro None ge dr show ?thesis
          by (simp add: tryAssign_loop.simps[of e i s] split: option.splits)
      qed
    qed
  qed
qed

lemma tryAssignQueuedUsers_pass:
  "tryAssignQueuedUsers e s =
     (case promotion_pass e (config s) (rooms s) (queue s) of
        None \<Rightarrow> None
      | Some (rs', kept) \<Rightarrow> Some (s\<lparr>rooms := rs', queue := kept\<rparr>))"
proof (cases "queue s")
  case Nil
  then show ?thesis by (simp add: tryAssignQueuedUsers_def)
next
  case (Cons x xs)
  then have "tryAssignQueuedUsers e s = tryAssign_loop e 0 s"
    by (simp add: tryAssignQueuedUsers_def)
  then show ?thesis by (simp add: tryAssign_loop_pass split: option.splits)
qed

lemma promotion_pass_subseq:
  "promotion_pass e cfg rs q = Some (rs', kept) \<Longrightarrow> subseq kept q"
proof (induction q arbitrary: e rs kept)
  case Nil
  then show ?case by simp
next
  case (Cons x q)
  obtain ord e1 where ro: "range_order e = (ord, e1)" by (cases "range_order e")
  show ?case
  proof (cases "find_waiting_room ord rs")
    case (Some kr)
    obtain k room where kr: "kr = (k, room)" by (cases kr)
    obtain room' e2 where au: "AddUser e1 room (Username x) = (room', e2)"
      by (cases "AddUser e1 room (Username x)")
    from Cons.prems ro Some kr au
    have "promotion_pass e2 cfg (rs(k \<mapsto> room')) q = Some (rs', kept)" by simp
    then have "subseq kept q" by (rule Cons.IH)
    then show ?thesis by (rule list_emb_Cons)
  next
    case None
    show ?thesis
    proof (cases "len_rooms rs < MaxRooms cfg")
      case True
      with Cons.prems ro None obtain code e2 where
        g: "generateRoomCode rs e1 = Some (code, e2)"
        by (auto split: option.splits)
      obtain room e3 where nr: "new_room e2 code (Username x) = (room, e3)"
        by (cases "new_room e2 code (Username x)")
      from Cons.prems ro None True g nr
      have "promotion_pass e3 cfg (rs(code \<mapsto> room)) q = Some (rs', kept)" by simp
      then have "subseq kept q" by (rule Cons.IH)
      then show ?thesis by (rule list_emb_Cons)
    next
      case False
      with Cons.prems ro None obtain kept' where
        p: "promotion_pass e1 cfg rs q = Some (rs', kept')" and k: "kept = x # kept'"
        by (auto split: option.splits)
      from p have "subseq kept' q" by (rule Cons.IH)
      with k show ?thesis by simp
    qed
  qed
qed

lemma promotion_pass_ok:
  "rooms_ok rs \<Longrightarrow> promotion_pass e cfg rs q = Some (rs', kept) \<Longrightarrow> rooms_ok rs'"
proof (induction q arbitrary: e rs kept)
  case Nil
  then show ?case by simp
next
  case (Cons x q)
  obtain ord e1 where ro: "range_order e = (ord, e1)" by (cases "range_order e")
  show ?case
  proof (cases "find_waiting_room ord rs")
    case (Some kr)
    obtain k room where kr: "kr = (k, room)" by (cases kr)
    obtain room' e2 where au: "AddUser e1 room (Username x) = (room', e2)"
      by (cases "AddUser e1 room (Username x)")
    from Some kr have "rs k = Some room" by (simp add: find_waiting_room_Some)
    with Cons.prems(1) have "room_ok room" by (rule rooms_okD)
    then have "room_ok room'" using au by (rule AddUser_ok)
    with Cons.prems(1) have ok: "rooms_ok (rs(k \<mapsto> room'))" by (rule rooms_ok_upd)
    from Cons.prems(2) ro Some kr au
    have "promotion_pass e2 cfg (rs(k \<mapsto> room')) q = Some (rs', kept)" by simp
    with ok show ?thesis by (rule Cons.IH)
  next
    case None
    show ?thesis
    proof (cases "len_rooms rs < MaxRooms cfg")
      case True
      with Cons.prems(2) ro None obtain code e2 where
        g: "generateRoomCode rs e1 = Some (code, e2)"
        by (auto split: option.splits)
      obtain room e3 where nr: "new_room e2 code (Username x) = (room, e3)"
        by (cases "new_room e2 code (Username x)")
      from nr have "room_ok room" by (rule new_room_ok)
      with Cons.prems(1) have ok: "rooms_ok (rs(code \<mapsto> room))" by (rule rooms_ok_upd)
      from Cons.prems(2) ro None True g nr
      have "promotion_pass e3 cfg (rs(code \<mapsto> room)) q = Some (rs', kept)" by simp
      with ok show ?thesis by (rule Cons.IH)
    next
      case False
      with Cons.prems(2) ro None obtain kept' where
        p: "promotion_pass e1 cfg rs q = Some (rs', kept')"
        by (auto split: option.splits)
      with Cons.prems(1) show ?thesis by (rule Cons.IH)
    qed
  qed
qed

lemma tryAssignQueuedUsers_ok:
  "rooms_ok (rooms s) \<Longrightarrow> tryAssignQueuedUsers e s = Some s' \<Longrightarrow> rooms_ok (rooms s')"
  by (auto simp: tryAssignQueuedUsers_pass split: option.splits dest: promotion_pass_ok)

lemma reachable_rooms_ok: "reachable cfg s \<Longrightarrow> rooms_ok (rooms s)"
proof (induction rule: reachable.induct)
  case reach_new
  show ?case by (simp add: NewChatService_def rooms_ok_def)
next
  case (reach_StartChat s e username resp s')
  then show ?case by (auto dest: StartChat_ok)
next
  case (reach_JoinRoom s e roomCode username s')
  then show ?case by (auto dest: JoinRoom_ok)
next
  case (reach_LeaveRoom s e roomCode username)
  then show ?case by (simp add: LeaveRoom_ok)
next
  case (reach_tryAssignQueuedUsers s e s')
  then show ?case by (auto dest: tryAssignQueuedUsers_ok)
next
  case (reach_cleanupExpiredQueueEntries s e)
  then show ?case by (simp add: cleanupExpiredQueueEntries_rooms)
next
  case (reach_cleanupLonelyRooms s e)
  then show ?case by (simp add: cleanupLonelyRooms_ok)
qed

lemmas scenario_defs = cfg1_def env1_def room1_def room2_def state1_def state2_def state3_def

lemmas eval_defs = StartChat_def range_order_def time_Now_def NewChatService_def
  len_rooms_def generateRoomCode_def new_room_def AddUser_def HasUser_def IsFull_def
  IsWaiting_def addToQueue_def decimal.simps

lemma StartChat_u1:
  "StartChat env1 (NewChatService cfg1) ''u1'' =
     Some (\<lparr>Status = ''room_assigned'', RoomCode = ''ABCDEFGH'', Position = 0,
            Message = ''Created new room''\<rparr>, state1)"
  by (simp add: eval_defs scenario_defs)

lemma StartChat_u2:
  "StartChat env1 state1 ''u2'' =
     Some (\<lparr>Status = ''room_assigned'', RoomCode = ''ABCDEFGH'', Position = 0,
            Message = ''Joined existing room''\<rparr>, state2)"
  by (simp add: eval_defs scenario_defs)

lemma StartChat_u3:
  "StartChat env1 state2 ''u3'' =
     Some (\<lparr>Status = ''queued'', RoomCode = [], Position = 1,
            Message = ''Added to queue. Position: 1''\<rparr>, state3)"
  by (simp add: eval_defs scenario_defs)

lemma reachable_state1: "reachable cfg1 state1"
  using reach_new StartChat_u1 by (rule reach_StartChat)

lemma reachable_state2: "reachable cfg1 state2"
  using reachable_state1 StartChat_u2 by (rule reach_StartChat)

lemma reachable_state3: "reachable cfg1 state3"
  using reachable_state2 StartChat_u3 by (rule reach_StartChat)

text \<open>
  C1. In every state reachable from the state \<^verbatim>\<open>NewChatService\<close> makes by
  \<^verbatim>\<open>StartChat\<close>, \<^verbatim>\<open>JoinRoom\<close>, \<^verbatim>\<open>LeaveRoom\<close> and ticks of the promotion sweep,
  the expiry sweep and the reaper, every room of the registry has at most
  two members, and no room of the registry has no member: each state is the
  state after a completed operation, so a room whose last member was removed is
  gone when the removing operation is done.
\<close>

theorem room_capacity_invariant:
  "reachable cfg s \<Longrightarrow> rooms s code = Some room \<Longrightarrow>
     0 \<le> length (Users room) \<and> length (Users room) \<le> 2 \<and> length (Users room) \<noteq> 0"
proof -
  assume "reachable cfg s" and r: "rooms s code = Some room"
  then have "rooms_ok (rooms s)" by (simp add: reachable_rooms_ok)
  then have "room_ok room" using r by (rule rooms_okD)
  then show ?thesis by (auto simp: room_ok_def)
qed

theorem room_capacity_invariant_witness:
  "reachable cfg1 state2 \<and> rooms state2 ''ABCDEFGH'' = Some room2 \<and>
     0 \<le> length (Users room2) \<and> length (Users room2) \<le> 2 \<and> length (Users room2) \<noteq> 0"
proof -
  have r: "rooms state2 ''ABCDEFGH'' = Some room2" by (simp add: state2_def)
  from room_capacity_invariant[OF reachable_state2 r] reachable_state2 r
  show ?thesis by simp
qed

subsection \<open>Joining and leaving a room\<close>

text \<open>
  C3. \<^verbatim>\<open>JoinRoom\<close> returns the room-not-found error exactly when the registry
  has no room with the code. When the room exists and the user is one of its
  members the call succeeds and changes nothing, also when the room is full.
  When the room exists, the user is not a member and the room has two members
  (or more), the call returns the room-full error. In the remaining case the
  call succeeds, the user is appended to the members of the room and the
  room's \<^verbatim>\<open>UpdatedAt\<close> is the reading of the clock.
\<close>

theorem JoinRoom_guards:
  "(JoinRoom e s code u = Inl RoomNotFound \<longleftrightarrow> rooms s code = None) \<and>
   (\<forall>room. rooms s code = Some room \<and> u \<in> set (Users room) \<longrightarrow>
      JoinRoom e s code u = Inr s) \<and>
   (\<forall>room. rooms s code = Some room \<and> u \<notin> set (Users room) \<and> 2 \<le> length (Users room) \<longrightarrow>
      JoinRoom e s code u = Inl RoomFull) \<and>
   (\<forall>room. rooms s code = Some room \<and> u \<notin> set (Users room) \<and> length (Users room) < 2 \<longrightarrow>
      JoinRoom e s code u =
        Inr (s\<lparr>rooms := (rooms s)(code \<mapsto> room\<lparr>Users := Users room @ [u], UpdatedAt := clock e 0\<rparr>)\<rparr>))"
proof (cases "rooms s code")
  case None
  then show ?thesis by (simp add: JoinRoom_def)
next
  case (Some room)
  have ne: "RoomFull \<noteq> RoomNotFound" by (simp add: RoomFull_def RoomNotFound_def)
  from Some ne show ?thesis
    by (auto simp: JoinRoom_def HasUser_set IsFull_def AddUser_eq)
qed

theorem JoinRoom_guards_witness:
  "JoinRoom env1 state2 ''ZZZZZZZZ'' ''u3'' = Inl RoomNotFound \<and>
   rooms state2 ''ZZZZZZZZ'' = None \<and>
   rooms state2 ''ABCDEFGH'' = Some room2 \<and> ''u1'' \<in> set (Users room2) \<and>
   JoinRoom env1 state2 ''ABCDEFGH'' ''u1'' = Inr state2 \<and>
   ''u3'' \<notin> set (Users room2) \<and> 2 \<le> length (Users room2) \<and>
   JoinRoom env1 state2 ''ABCDEFGH'' ''u3'' = Inl RoomFull \<and>
   rooms state1 ''ABCDEFGH'' = Some room1 \<and> ''u2'' \<notin> set (Users room1) \<and>
   length (Users room1) < 2 \<and>
   JoinRoom env1 state1 ''ABCDEFGH'' ''u2'' = Inr state2"
proof -
  have a: "rooms state2 ''ZZZZZZZZ'' = None" by (simp add: state2_def)
  have b: "rooms state2 ''ABCDEFGH'' = Some room2 \<and> ''u1'' \<in> set (Users room2)"
    by (simp add: state2_def room2_def)
  have c: "rooms state2 ''ABCDEFGH'' = Some room2 \<and> ''u3'' \<notin> set (Users room2) \<and>
           2 \<le> length (Users room2)"
    by (simp add: state2_def room2_def)
  have d: "rooms state1 ''ABCDEFGH'' = Some room1 \<and> ''u2'' \<notin> set (Users room1) \<and>
           length (Users room1) < 2"
    by (simp add: state1_def room1_def)
  have upd: "state1\<lparr>rooms := (rooms state1)(''ABCDEFGH'' \<mapsto>
               room1\<lparr>Users := Users room1 @ [''u2''], UpdatedAt := clock env1 0\<rparr>)\<rparr> = state2"
    by (simp add: scenario_defs)
  from JoinRoom_guards[of env1 state2 "''ZZZZZZZZ''" "''u3''"] a
  have 1: "JoinRoom env1 state2 ''ZZZZZZZZ'' ''u3'' = Inl RoomNotFound" by simp
  from JoinRoom_guards[of env1 state2 "''ABCDEFGH''" "''u1''"] b
  have 2: "JoinRoom env1 state2 ''ABCDEFGH'' ''u1'' = Inr state2" by blast
  from JoinRoom_guards[of env1 state2 "''ABCDEFGH''" "''u3''"] c
  have 3: "JoinRoom env1 state2 ''ABCDEFGH'' ''u3'' = Inl RoomFull" by blast
  from JoinRoom_guards[of env1 state1 "''ABCDEFGH''" "''u2''"] d
  have "JoinRoom env1 state1 ''ABCDEFGH'' ''u2'' =
          Inr (state1\<lparr>rooms := (rooms state1)(''ABCDEFGH'' \<mapsto>
               room1\<lparr>Users := Users room1 @ [''u2''], UpdatedAt := clock env1 0\<rparr>)\<rparr>)"
    by blast
  with upd have 4: "JoinRoom env1 state1 ''ABCDEFGH'' ''u2'' = Inr state2" by simp
  from a b c d 1 2 3 4 show ?thesis by simp
qed

text \<open>
  C4. \<^verbatim>\<open>LeaveRoom\<close> has no error result and returns on every input. In a state
  whose rooms all have a member (every reachable state, by the room capacity
  invariant): when the registry has no room with the code, or the room does not
  have the user, the state is unchanged; when the room has the user, the user
  is taken out of the member list, the room is deleted in the same call if no
  member is left, and stays in the registry, with \<^verbatim>\<open>UpdatedAt\<close> refreshed, if
  one is left. The queue is never touched.
\<close>

theorem LeaveRoom_total:
  assumes "rooms_ok (rooms s)"
  shows "(rooms s code = None \<longrightarrow> LeaveRoom e s code u = s) \<and>
         (\<forall>room. rooms s code = Some room \<and> u \<notin> set (Users room) \<longrightarrow>
            LeaveRoom e s code u = s) \<and>
         (\<forall>room. rooms s code = Some room \<and> u \<in> set (Users room) \<longrightarrow>
            u \<notin> set (remove1 u (Users room)) \<and>
            LeaveRoom e s code u =
              s\<lparr>rooms :=
                  (if remove1 u (Users room) = [] then (rooms s)(code := None)
                   else (rooms s)(code \<mapsto>
                          room\<lparr>Users := remove1 u (Users room), UpdatedAt := clock e 0\<rparr>))\<rparr>)"
proof (intro conjI allI impI)
  assume "rooms s code = None"
  then show "LeaveRoom e s code u = s" by (simp add: LeaveRoom_def)
next
  fix room
  assume a: "rooms s code = Some room \<and> u \<notin> set (Users room)"
  with assms have "room_ok room" by (auto dest: rooms_okD)
  then have "Users room \<noteq> []" by (auto simp: room_ok_def)
  moreover from a have "(rooms s)(code \<mapsto> room) = rooms s" by (auto simp: fun_upd_idem_iff)
  ultimately show "LeaveRoom e s code u = s"
    using a by (simp add: LeaveRoom_def RemoveUser_eq)
next
  fix room
  assume a: "rooms s code = Some room \<and> u \<in> set (Users room)"
  with assms have "room_ok room" by (auto dest: rooms_okD)
  then show "u \<notin> set (remove1 u (Users room))" by (simp add: room_ok_def)
next
  fix room
  assume a: "rooms s code = Some room \<and> u \<in> set (Users room)"
  then show "LeaveRoom e s code u =
      s\<lparr>rooms :=
          (if remove1 u (Users room) = [] then (rooms s)(code := None)
           else (rooms s)(code \<mapsto>
                  room\<lparr>Users := remove1 u (Users room), UpdatedAt := clock e 0\<rparr>))\<rparr>"
    by (simp add: LeaveRoom_def RemoveUser_eq)
qed

theorem LeaveRoom_total_witness:
  "rooms_ok (rooms state2) \<and> rooms state2 ''ZZZZZZZZ'' = None \<and>
   LeaveRoom env1 state2 ''ZZZZZZZZ'' ''u1'' = state2 \<and>
   rooms state2 ''ABCDEFGH'' = Some room2 \<and> ''u3'' \<notin> set (Users room2) \<and>
   LeaveRoom env1 state2 ''ABCDEFGH'' ''u3'' = state2 \<and>
   ''u2'' \<in> set (Users room2) \<and>
   LeaveRoom env1 state2 ''ABCDEFGH'' ''u2'' =
     state2\<lparr>rooms := [''ABCDEFGH'' \<mapsto> room1\<lparr>UpdatedAt := 1000\<rparr>]\<rparr> \<and>
   rooms_ok (rooms state1) \<and> rooms state1 ''ABCDEFGH'' = Some room1 \<and>
   ''u1'' \<in> set (Users room1) \<and>
   LeaveRoom env1 state1 ''ABCDEFGH'' ''u1'' = NewChatService cfg1"
proof -
  have ok2: "rooms_ok (rooms state2)" using reachable_state2 by (rule reachable_rooms_ok)
  have ok1: "rooms_ok (rooms state1)" using reachable_state1 by (rule reachable_rooms_ok)
  have a: "rooms state2 ''ZZZZZZZZ'' = None" by (simp add: state2_def)
  have b: "rooms state2 ''ABCDEFGH'' = Some room2 \<and> ''u3'' \<notin> set (Users room2)"
    by (simp add: state2_def room2_def)
  have c: "rooms state2 ''ABCDEFGH'' = Some room2 \<and> ''u2'' \<in> set (Users room2)"
    by (simp add: state2_def room2_def)
  have d: "rooms state1 ''ABCDEFGH'' = Some room1 \<and> ''u1'' \<in> set (Users room1)"
    by (simp add: state1_def room1_def)
  from LeaveRoom_total[OF ok2, of "''ZZZZZZZZ''" env1 "''u1''"] a
  have 1: "LeaveRoom env1 state2 ''ZZZZZZZZ'' ''u1'' = state2" by simp
  from LeaveRoom_total[OF ok2, of "''ABCDEFGH''" env1 "''u3''"] b
  have 2: "LeaveRoom env1 state2 ''ABCDEFGH'' ''u3'' = state2" by blast
  from LeaveRoom_total[OF ok2, of "''ABCDEFGH''" env1 "''u2''"] c
  have "LeaveRoom env1 state2 ''ABCDEFGH'' ''u2'' =
      state2\<lparr>rooms :=
          (if remove1 ''u2'' (Users room2) = [] then (rooms state2)(''ABCDEFGH'' := None)
           else (rooms state2)(''ABCDEFGH'' \<mapsto>
                  room2\<lparr>Users := remove1 ''u2'' (Users room2), UpdatedAt := clock env1 0\<rparr>))\<rparr>"
    by blast
  then have 3: "LeaveRoom env1 state2 ''ABCDEFGH'' ''u2'' =
     state2\<lparr>rooms := [''ABCDEFGH'' \<mapsto> room1\<lparr>UpdatedAt := 1000\<rparr>]\<rparr>"
    by (simp add: scenario_defs)
  from LeaveRoom_total[OF ok1, of "''ABCDEFGH''" env1 "''u1''"] d
  have "LeaveRoom env1 state1 ''ABCDEFGH'' ''u1'' =
      state1\<lparr>rooms :=
          (if remove1 ''u1'' (Users room1) = [] then (rooms state1)(''ABCDEFGH'' := None)
           else (rooms state1)(''ABCDEFGH'' \<mapsto>
                  room1\<lparr>Users := remove1 ''u1'' (Users room1), UpdatedAt := clock env1 0\<rparr>))\<rparr>"
    by blast
  then have 4: "LeaveRoom env1 state1 ''ABCDEFGH'' ''u1'' = NewChatService cfg1"
    by (simp add: scenario_defs NewChatService_def)
  from ok1 ok2 a b c d 1 2 3 4 show ?thesis by simp
qed

subsection \<open>The expiry sweep and the reaper\<close>

lemma time_Sub_less:
  "minDuration < d \<Longrightarrow> d \<le> maxDuration \<Longrightarrow> (time_Sub t u < d) = (t - u < d)"
  by (auto simp: time_Sub_def)

lemma time_Sub_ge:
  "minDuration < d \<Longrightarrow> d \<le> maxDuration \<Longrightarrow> (d \<le> time_Sub t u) = (d \<le> t - u)"
  by (auto simp: time_Sub_def)

lemma validEntries_loop_filter:
  "validEntries_loop now timeout q acc =
     acc @ filter (\<lambda>entry. time_Sub now (QueuedAt entry) < timeout) q"
  by (induction q arbitrary: acc) auto

text \<open>
  C7. One tick of the expiry sweep reads the clock once and keeps, in their
  order, the entries whose age at that reading is below the queue timeout: it
  removes exactly the entries with \<open>now - queuedAt \<ge> queueTimeout\<close>. The timeout
  is a duration (at most the greatest one) above the least duration, as every
  validated configuration has it. The rooms are not touched.
\<close>

theorem expiry_sweep_exact:
  assumes "minDuration < QueueTimeout (config s)"
    and "QueueTimeout (config s) \<le> maxDuration"
  shows "cleanupExpiredQueueEntries e s =
           s\<lparr>queue := filter (\<lambda>entry. \<not> (clock e 0 - QueuedAt entry \<ge> QueueTimeout (config s)))
                        (queue s)\<rparr>"
proof -
  have "filter (\<lambda>entry. time_Sub (clock e 0) (QueuedAt entry) < QueueTimeout (config s)) (queue s) =
        filter (\<lambda>entry. \<not> (clock e 0 - QueuedAt entry \<ge> QueueTimeout (config s))) (queue s)"
    using assms by (intro filter_cong) (auto simp: time_Sub_less)
  then show ?thesis
    by (simp add: cleanupExpiredQueueEntries_def time_Now_def validEntries_loop_filter)
qed

theorem expiry_sweep_exact_witness:
  "minDuration < QueueTimeout (config queue_state) \<and>
   QueueTimeout (config queue_state) \<le> maxDuration \<and>
   cleanupExpiredQueueEntries env2 queue_state =
     queue_state\<lparr>queue := [\<lparr>Username = ''b'', QueuedAt = 200000000001\<rparr>,
                           \<lparr>Username = ''d'', QueuedAt = 499999999999\<rparr>]\<rparr>"
proof -
  have h: "minDuration < QueueTimeout (config queue_state)"
    "QueueTimeout (config queue_state) \<le> maxDuration"
    by (simp_all add: queue_state_def cfg1_def minDuration_def maxDuration_def)
  from expiry_sweep_exact[OF h, of env2] h show ?thesis
    by (simp add: queue_state_def cfg1_def env2_def)
qed

lemma roomsToDelete_loop_set:
  "set (roomsToDelete_loop now interval ks rs acc) =
     set acc \<union> {k \<in> set ks. \<exists>room. rs k = Some room \<and> length (Users room) = 1 \<and>
                                 interval \<le> time_Sub now (UpdatedAt room)}"
  by (induction ks arbitrary: acc) (auto split: option.splits)

text \<open>
  C8. One tick of the reaper reads the clock once and deletes from the
  registry exactly the rooms that have one member and whose \<^verbatim>\<open>UpdatedAt\<close> is at
  least the cleanup interval before that reading; every other room stays as
  it is, so a room with two members is never deleted, whatever its age. The
  \<^verbatim>\<open>range\<close> enumerates every key of the registry, and the interval is a duration
  above the least one, as every validated configuration has it. The queue is
  not touched.
\<close>

theorem reaper_exact:
  assumes "dom (rooms s) \<subseteq> set (orders e 0)"
    and "minDuration < RoomCleanupInterval (config s)"
    and "RoomCleanupInterval (config s) \<le> maxDuration"
  shows "rooms (cleanupLonelyRooms e s) code =
           (case rooms s code of
              None \<Rightarrow> None
            | Some room \<Rightarrow>
                if length (Users room) = 1 \<and>
                   clock e 0 - UpdatedAt room \<ge> RoomCleanupInterval (config s)
                then None else Some room) \<and>
         (\<forall>room. rooms s code = Some room \<and> length (Users room) = 2 \<longrightarrow>
            rooms (cleanupLonelyRooms e s) code = Some room) \<and>
         queue (cleanupLonelyRooms e s) = queue s"
proof (intro conjI)
  let ?I = "RoomCleanupInterval (config s)"
  have r: "rooms (cleanupLonelyRooms e s) code =
             (if code \<in> set (roomsToDelete_loop (clock e 0) ?I (orders e 0) (rooms s) [])
              then None else rooms s code)"
    by (simp add: cleanupLonelyRooms_def time_Now_def range_order_def delete_loop_apply)
  show "rooms (cleanupLonelyRooms e s) code =
           (case rooms s code of
              None \<Rightarrow> None
            | Some room \<Rightarrow>
                if length (Users room) = 1 \<and> clock e 0 - UpdatedAt room \<ge> ?I
                then None else Some room)"
  proof (cases "rooms s code")
    case None
    with r show ?thesis by simp
  next
    case (Some room)
    with assms(1) have "code \<in> set (orders e 0)" by auto
    with Some r assms(2,3) show ?thesis
      by (simp add: roomsToDelete_loop_set time_Sub_ge)
  qed
  show "\<forall>room. rooms s code = Some room \<and> length (Users room) = 2 \<longrightarrow>
           rooms (cleanupLonelyRooms e s) code = Some room"
    using r by (auto simp: roomsToDelete_loop_set)
  show "queue (cleanupLonelyRooms e s) = queue s"
    by (simp add: cleanupLonelyRooms_def time_Now_def range_order_def)
qed

theorem reaper_exact_witness:
  "dom (rooms reaper_state) \<subseteq> set (orders env3 0) \<and>
   minDuration < RoomCleanupInterval (config reaper_state) \<and>
   RoomCleanupInterval (config reaper_state) \<le> maxDuration \<and>
   rooms (cleanupLonelyRooms env3 reaper_state) ''ABCDEFGH'' = Some room2 \<and>
   rooms (cleanupLonelyRooms env3 reaper_state) ''IJKLMNOP'' = None \<and>
   rooms (cleanupLonelyRooms env3 reaper_state) ''QRSTUVWX'' = Some room4 \<and>
   queue (cleanupLonelyRooms env3 reaper_state) = []"
proof -
  have h: "dom (rooms reaper_state) \<subseteq> set (orders env3 0)"
    "minDuration < RoomCleanupInterval (config reaper_state)"
    "RoomCleanupInterval (config reaper_state) \<le> maxDuration"
    by (simp_all add: reaper_state_def env3_def cfg1_def minDuration_def maxDuration_def)
  from reaper_exact[OF h, of "''ABCDEFGH''"] reaper_exact[OF h, of "''IJKLMNOP''"]
    reaper_exact[OF h, of "''QRSTUVWX''"] h
  show ?thesis
    by (simp add: reaper_state_def env3_def cfg1_def room2_def room3_def room4_def)
qed

subsection \<open>The queue\<close>

lemma first_index_Username_None:
  "(first_index (\<lambda>entry. Username entry = u) q i = None) = (u \<notin> Username ` set q)"
  by (auto simp: first_index_None)

lemma first_index_append:
  "first_index P (xs @ ys) i =
     (case first_index P xs i of
        Some j \<Rightarrow> Some j
      | None \<Rightarrow> first_index P ys (i + length xs))"
  by (induction xs arbitrary: i) (auto split: option.splits)

lemma GetQueuePosition_absent:
  "u \<notin> Username ` set (queue s) \<Longrightarrow> GetQueuePosition s u = 0"
  by (simp add: GetQueuePosition_def first_index_Username_None[symmetric, of u "queue s" 0])

lemma GetQueuePosition_present:
  assumes "u \<in> Username ` set (queue s)"
  shows "\<exists>i < length (queue s). GetQueuePosition s u = int i + 1 \<and>
           Username (queue s ! i) = u \<and> (\<forall>j < i. Username (queue s ! j) \<noteq> u)"
proof -
  from assms obtain i where i: "first_index (\<lambda>entry. Username entry = u) (queue s) 0 = Some i"
    using first_index_Username_None[of u "queue s" 0] by (cases "first_index (\<lambda>entry. Username entry = u) (queue s) 0") auto
  from first_index_Some[OF i] i show ?thesis
    by (auto simp: GetQueuePosition_def)
qed

text \<open>
  C9. \<^verbatim>\<open>addToQueue\<close> on a user who has an entry in the queue answers
  \<open>queued\<close> with the position \<^verbatim>\<open>GetQueuePosition\<close> gives and leaves the state as
  it is; on a user who has none it appends an entry, stamped with the reading of
  the clock, at the back and answers \<open>queued\<close> with the new length of the queue,
  which is the position \<^verbatim>\<open>GetQueuePosition\<close> gives afterwards.
  \<^verbatim>\<open>GetQueuePosition\<close> is 0 for a user without an entry and otherwise the index,
  counted from 1, of the user's first entry. Three different users enqueued in
  the order A, B, C on an empty queue have the positions 1, 2, 3, and in every
  state whose queue is that queue without its front entry, the one of A (as
  after \<^verbatim>\<open>removeFromQueue\<close>, or after a promotion sweep that promotes A only), B
  has position 1 and C position 2.
\<close>

theorem queue_positions:
  "(u \<in> Username ` set (queue s) \<longrightarrow>
      (\<exists>resp. addToQueue e s u = (resp, s) \<and> Status resp = ''queued'' \<and>
         Position resp = GetQueuePosition s u)) \<and>
   (u \<notin> Username ` set (queue s) \<longrightarrow>
      (\<exists>resp. addToQueue e s u =
                 (resp, s\<lparr>queue := queue s @ [\<lparr>Username = u, QueuedAt = clock e 0\<rparr>]\<rparr>) \<and>
         Status resp = ''queued'' \<and>
         Position resp = int (length (queue s)) + 1 \<and>
         Position resp =
           GetQueuePosition (s\<lparr>queue := queue s @ [\<lparr>Username = u, QueuedAt = clock e 0\<rparr>]\<rparr>) u)) \<and>
   (u \<notin> Username ` set (queue s) \<longrightarrow> GetQueuePosition s u = 0) \<and>
   (u \<in> Username ` set (queue s) \<longrightarrow>
      (\<exists>i < length (queue s). GetQueuePosition s u = int i + 1 \<and>
         Username (queue s ! i) = u \<and> (\<forall>j < i. Username (queue s ! j) \<noteq> u))) \<and>
   (queue s = [] \<and> a \<noteq> b \<and> a \<noteq> c \<and> b \<noteq> c \<longrightarrow>
      (let s3 = snd (addToQueue e3 (snd (addToQueue e2 (snd (addToQueue e1 s a)) b)) c)
       in GetQueuePosition s3 a = 1 \<and> GetQueuePosition s3 b = 2 \<and>
          GetQueuePosition s3 c = 3 \<and>
          queue (removeFromQueue s3 a) = tl (queue s3) \<and>
          (\<forall>s'. queue s' = tl (queue s3) \<longrightarrow>
             GetQueuePosition s' a = 0 \<and> GetQueuePosition s' b = 1 \<and>
             GetQueuePosition s' c = 2)))"
proof (intro conjI impI)
  assume "u \<in> Username ` set (queue s)"
  then obtain i where "first_index (\<lambda>entry. Username entry = u) (queue s) 0 = Some i"
    using first_index_Username_None[of u "queue s" 0]
    by (cases "first_index (\<lambda>entry. Username entry = u) (queue s) 0") auto
  then show "\<exists>resp. addToQueue e s u = (resp, s) \<and> Status resp = ''queued'' \<and>
         Position resp = GetQueuePosition s u"
    by (simp add: addToQueue_def GetQueuePosition_def)
next
  assume "u \<notin> Username ` set (queue s)"
  then have n: "first_index (\<lambda>entry. Username entry = u) (queue s) 0 = None"
    by (simp add: first_index_Username_None)
  then show "\<exists>resp. addToQueue e s u =
                 (resp, s\<lparr>queue := queue s @ [\<lparr>Username = u, QueuedAt = clock e 0\<rparr>]\<rparr>) \<and>
         Status resp = ''queued'' \<and>
         Position resp = int (length (queue s)) + 1 \<and>
         Position resp =
           GetQueuePosition (s\<lparr>queue := queue s @ [\<lparr>Username = u, QueuedAt = clock e 0\<rparr>]\<rparr>) u"
    by (simp add: addToQueue_def GetQueuePosition_def time_Now_def Let_def first_index_append)
next
  assume "u \<notin> Username ` set (queue s)"
  then show "GetQueuePosition s u = 0" by (rule GetQueuePosition_absent)
next
  assume "u \<in> Username ` set (queue s)"
  then show "\<exists>i < length (queue s). GetQueuePosition s u = int i + 1 \<and>
         Username (queue s ! i) = u \<and> (\<forall>j < i. Username (queue s ! j) \<noteq> u)"
    by (rule GetQueuePosition_present)
next
  assume "queue s = [] \<and> a \<noteq> b \<and> a \<noteq> c \<and> b \<noteq> c"
  then show "let s3 = snd (addToQueue e3 (snd (addToQueue e2 (snd (addToQueue e1 s a)) b)) c)
       in GetQueuePosition s3 a = 1 \<and> GetQueuePosition s3 b = 2 \<and>
          GetQueuePosition s3 c = 3 \<and>
          queue (removeFromQueue s3 a) = tl (queue s3) \<and>
          (\<forall>s'. queue s' = tl (queue s3) \<longrightarrow>
             GetQueuePosition s' a = 0 \<and> GetQueuePosition s' b = 1 \<and>
             GetQueuePosition s' c = 2)"
    by (auto simp: addToQueue_def GetQueuePosition_def removeFromQueue_def remove_at_def
        time_Now_def Let_def)
qed

theorem queue_positions_witness:
  "''u3'' \<in> Username ` set (queue state3) \<and>
   addToQueue env1 state3 ''u3'' =
     (\<lparr>Status = ''queued'', RoomCode = [], Position = 1, Message = ''Already in queue''\<rparr>, state3) \<and>
   GetQueuePosition state3 ''u3'' = 1 \<and>
   ''u4'' \<notin> Username ` set (queue state3) \<and>
   GetQueuePosition state3 ''u4'' = 0 \<and>
   addToQueue env1 state3 ''u4'' =
     (\<lparr>Status = ''queued'', RoomCode = [], Position = 2,
       Message = ''Added to queue. Position: 2''\<rparr>,
      state3\<lparr>queue := queue state3 @ [\<lparr>Username = ''u4'', QueuedAt = 1000\<rparr>]\<rparr>) \<and>
   queue state2 = [] \<and> ''A'' \<noteq> ''B'' \<and> ''A'' \<noteq> ''C'' \<and> ''B'' \<noteq> ''C'' \<and>
   (let s3 = snd (addToQueue env1 (snd (addToQueue env1 (snd (addToQueue env1 state2 ''A'')) ''B'')) ''C'')
    in GetQueuePosition s3 ''A'' = 1 \<and> GetQueuePosition s3 ''B'' = 2 \<and>
       GetQueuePosition s3 ''C'' = 3 \<and>
       GetQueuePosition (removeFromQueue s3 ''A'') ''B'' = 1 \<and>
       GetQueuePosition (removeFromQueue s3 ''A'') ''C'' = 2) \<and>
   tryAssignQueuedUsers env1 abc_state = Some abc_state' \<and>
   queue abc_state' = tl (queue abc_state) \<and>
   GetQueuePosition abc_state' ''B'' = 1 \<and> GetQueuePosition abc_state' ''C'' = 2"
proof -
  have a: "''u3'' \<in> Username ` set (queue state3)" by (simp add: state3_def)
  have b: "''u4'' \<notin> Username ` set (queue state3)" by (simp add: state3_def)
  have c: "queue state2 = [] \<and> ''A'' \<noteq> ''B'' \<and> ''A'' \<noteq> ''C'' \<and> ''B'' \<noteq> ''C''"
    by (simp add: state2_def)
  have m1: "addToQueue env1 state3 ''u3'' =
     (\<lparr>Status = ''queued'', RoomCode = [], Position = 1, Message = ''Already in queue''\<rparr>, state3)"
    by (simp add: addToQueue_def state3_def)
  have m2: "addToQueue env1 state3 ''u4'' =
     (\<lparr>Status = ''queued'', RoomCode = [], Position = 2,
       Message = ''Added to queue. Position: 2''\<rparr>,
      state3\<lparr>queue := queue state3 @ [\<lparr>Username = ''u4'', QueuedAt = 1000\<rparr>]\<rparr>)"
    by (simp add: addToQueue_def state3_def time_Now_def env1_def decimal.simps)
  from queue_positions[of "''u3''" state3 env1 "''A''" "''B''" "''C''" env1 env1 env1] a m1
  have 1: "GetQueuePosition state3 ''u3'' = 1" by auto
  from queue_positions[of "''u4''" state3 env1 "''A''" "''B''" "''C''" env1 env1 env1] b
  have 2: "GetQueuePosition state3 ''u4'' = 0" by blast
  from queue_positions[of "''u4''" state2 env1 "''A''" "''B''" "''C''" env1 env1 env1] c
  have 3: "let s3 = snd (addToQueue env1 (snd (addToQueue env1 (snd (addToQueue env1 state2 ''A'')) ''B'')) ''C'')
    in GetQueuePosition s3 ''A'' = 1 \<and> GetQueuePosition s3 ''B'' = 2 \<and>
       GetQueuePosition s3 ''C'' = 3 \<and>
       GetQueuePosition (removeFromQueue s3 ''A'') ''B'' = 1 \<and>
       GetQueuePosition (removeFromQueue s3 ''A'') ''C'' = 2"
    by (simp add: Let_def)
  have q: "queue abc_state =
      queue (snd (addToQueue env1 (snd (addToQueue env1 (snd (addToQueue env1 state1 ''A'')) ''B'')) ''C''))"
    by (simp add: abc_state_def state1_def addToQueue_def time_Now_def env1_def Let_def)
  have sw: "tryAssignQueuedUsers env1 abc_state = Some abc_state'"
    by (simp add: tryAssignQueuedUsers_pass abc_state_def abc_state'_def eval_defs scenario_defs)
  have tl: "queue abc_state' = tl (queue abc_state)"
    by (simp add: abc_state_def abc_state'_def)
  have c1: "queue state1 = [] \<and> ''A'' \<noteq> ''B'' \<and> ''A'' \<noteq> ''C'' \<and> ''B'' \<noteq> ''C''"
    by (simp add: state1_def)
  from queue_positions[of "''u4''" state1 env1 "''A''" "''B''" "''C''" env1 env1 env1] c1 tl q
  have 4: "GetQueuePosition abc_state' ''B'' = 1 \<and> GetQueuePosition abc_state' ''C'' = 2"
    by (simp add: Let_def)
  from a b c m1 m2 1 2 3 sw tl 4 show ?thesis by simp
qed

text \<open>
  C10. Whenever \<^verbatim>\<open>StartChat\<close> returns, the queue after the call is the queue
  before it, or the queue before it with one entry for the user, stamped with
  the reading of the clock, appended at the back; when the answer is
  \<open>room_assigned\<close> the queue is the queue before the call, so an entry the user
  already had in the queue is still there.
\<close>

theorem StartChat_queue_frame:
  assumes "StartChat e s u = Some (resp, s')"
  shows "(queue s' = queue s \<or>
          queue s' = queue s @ [\<lparr>Username = u, QueuedAt = clock e 0\<rparr>]) \<and>
         (Status resp = ''room_assigned'' \<longrightarrow> queue s' = queue s)"
proof (cases "find_user_room (orders e 0) (rooms s) u")
  case (Some r)
  with assms show ?thesis by (auto simp: StartChat_def range_order_def)
next
  case nouser: None
  show ?thesis
  proof (cases "find_waiting_room (orders e 1) (rooms s)")
    case (Some kr)
    obtain k r where kr: "kr = (k, r)" by (cases kr)
    obtain r' e' where au: "AddUser (e\<lparr>orders := \<lambda>n. orders e (Suc (Suc n))\<rparr>) r u = (r', e')"
      by (cases "AddUser (e\<lparr>orders := \<lambda>n. orders e (Suc (Suc n))\<rparr>) r u")
    from assms nouser Some kr au show ?thesis
      by (auto simp: StartChat_def range_order_def)
  next
    case nowait: None
    show ?thesis
    proof (cases "len_rooms (rooms s) < MaxRooms (config s)")
      case True
      with assms nouser nowait show ?thesis
        by (auto simp: StartChat_def range_order_def new_room_eq split: option.splits)
    next
      case False
      let ?e = "e\<lparr>orders := \<lambda>n. orders e (Suc (Suc n))\<rparr>"
      from False assms nouser nowait have eq: "addToQueue ?e s u = (resp, s')"
        by (auto simp: StartChat_def range_order_def)
      show ?thesis
      proof (cases "first_index (\<lambda>entry. Username entry = u) (queue s) 0")
        case None
        with eq show ?thesis by (auto simp: addToQueue_def time_Now_def Let_def)
      next
        case (Some i)
        with eq show ?thesis by (auto simp: addToQueue_def)
      qed
    qed
  qed
qed

lemma reachable_freed_state: "reachable cfg1 freed_state"
proof -
  have "LeaveRoom env1 (LeaveRoom env1 state3 ''ABCDEFGH'' ''u1'') ''ABCDEFGH'' ''u2'' = freed_state"
    by (simp add: LeaveRoom_def RemoveUser_def remove_at_def time_Now_def scenario_defs
        freed_state_def)
  moreover have "reachable cfg1 (LeaveRoom env1 (LeaveRoom env1 state3 ''ABCDEFGH'' ''u1'') ''ABCDEFGH'' ''u2'')"
    by (intro reach_LeaveRoom reachable_state3)
  ultimately show ?thesis by simp
qed

theorem StartChat_queue_frame_witness:
  "reachable cfg1 freed_state \<and>
   StartChat env1 freed_state ''u3'' =
     Some (\<lparr>Status = ''room_assigned'', RoomCode = ''ABCDEFGH'', Position = 0,
            Message = ''Created new room''\<rparr>,
           freed_state\<lparr>rooms := [''ABCDEFGH'' \<mapsto> room1\<lparr>Users := [''u3'']\<rparr>]\<rparr>) \<and>
   queue (freed_state\<lparr>rooms := [''ABCDEFGH'' \<mapsto> room1\<lparr>Users := [''u3'']\<rparr>]\<rparr>) =
     [\<lparr>Username = ''u3'', QueuedAt = 1000\<rparr>] \<and>
   queue freed_state = [\<lparr>Username = ''u3'', QueuedAt = 1000\<rparr>]"
proof -
  have st: "StartChat env1 freed_state ''u3'' =
     Some (\<lparr>Status = ''room_assigned'', RoomCode = ''ABCDEFGH'', Position = 0,
            Message = ''Created new room''\<rparr>,
           freed_state\<lparr>rooms := [''ABCDEFGH'' \<mapsto> room1\<lparr>Users := [''u3'']\<rparr>]\<rparr>)"
    by (simp add: eval_defs scenario_defs freed_state_def)
  from StartChat_queue_frame[OF st] st reachable_freed_state show ?thesis
    by (simp add: freed_state_def)
qed

subsection \<open>Starting a chat\<close>

lemma addToQueue_present:
  assumes "u \<in> Username ` set (queue s)"
  shows "\<exists>resp. addToQueue e s u = (resp, s) \<and> Status resp = ''queued'' \<and>
           Position resp = GetQueuePosition s u"
proof -
  from assms obtain i where "first_index (\<lambda>entry. Username entry = u) (queue s) 0 = Some i"
    using first_index_Username_None[of u "queue s" 0]
    by (cases "first_index (\<lambda>entry. Username entry = u) (queue s) 0") auto
  then show ?thesis by (simp add: addToQueue_def GetQueuePosition_def)
qed

lemma addToQueue_absent:
  assumes "u \<notin> Username ` set (queue s)"
  shows "\<exists>resp. addToQueue e s u =
                 (resp, s\<lparr>queue := queue s @ [\<lparr>Username = u, QueuedAt = clock e 0\<rparr>]\<rparr>) \<and>
           Status resp = ''queued'' \<and>
           Position resp = int (length (queue s)) + 1 \<and>
           Position resp =
             GetQueuePosition (s\<lparr>queue := queue s @ [\<lparr>Username = u, QueuedAt = clock e 0\<rparr>]\<rparr>) u"
proof -
  from assms have "first_index (\<lambda>entry. Username entry = u) (queue s) 0 = None"
    by (simp add: first_index_Username_None)
  then show ?thesis
    by (simp add: addToQueue_def GetQueuePosition_def time_Now_def Let_def first_index_append)
qed

lemma GetQueuePosition_ge_0: "0 \<le> GetQueuePosition s u"
  by (simp add: GetQueuePosition_def split: option.splits)

lemma addToQueue_queued:
  "\<exists>resp s'. addToQueue e s u = (resp, s') \<and> Status resp = ''queued'' \<and>
     rooms s' = rooms s \<and> config s' = config s \<and>
     Position resp = GetQueuePosition s' u \<and> 1 \<le> Position resp \<and>
     u \<in> Username ` set (queue s')"
proof (cases "u \<in> Username ` set (queue s)")
  case True
  from GetQueuePosition_present[OF True] have "1 \<le> GetQueuePosition s u" by auto
  with addToQueue_present[OF True, of e] True show ?thesis by auto
next
  case False
  from addToQueue_absent[OF False, of e] show ?thesis by auto
qed

text \<open>
  C2. \<^verbatim>\<open>StartChat\<close> takes the first of four cases that applies, when each of
  its two \<^verbatim>\<open>range\<close> loops enumerates every key of the registry. (1) The user is
  a member of some room: the answer is \<open>room_assigned\<close> with the code of a room
  the user is a member of, and the state is unchanged. (2) Else some room has
  exactly one member: the answer is \<open>room_assigned\<close> with the code of such a
  room, and the user is appended to its members (its \<^verbatim>\<open>UpdatedAt\<close> is the reading
  of the clock). (3) Else the number of rooms is below \<^verbatim>\<open>MaxRooms\<close>: when the
  random draws hold a code that is not a key of the registry, the answer is
  \<open>room_assigned\<close> with such a code, and a room with that code and the user as
  its only member is inserted under it. (4) Else the answer is \<open>queued\<close>, with
  the position of the user in the queue counted from 1; the rooms are
  unchanged.
\<close>

theorem StartChat_decision:
  assumes "dom (rooms s) \<subseteq> set (orders e 0)" and "dom (rooms s) \<subseteq> set (orders e 1)"
  shows
    "((\<exists>k room. rooms s k = Some room \<and> u \<in> set (Users room)) \<longrightarrow>
        (\<exists>k room. rooms s k = Some room \<and> u \<in> set (Users room) \<and>
           StartChat e s u =
             Some (\<lparr>Status = ''room_assigned'', RoomCode = Code room, Position = 0,
                    Message = ''Already in room''\<rparr>, s))) \<and>
     (\<not> (\<exists>k room. rooms s k = Some room \<and> u \<in> set (Users room)) \<and>
      (\<exists>k room. rooms s k = Some room \<and> length (Users room) = 1) \<longrightarrow>
        (\<exists>k room. rooms s k = Some room \<and> length (Users room) = 1 \<and>
           StartChat e s u =
             Some (\<lparr>Status = ''room_assigned'', RoomCode = Code room, Position = 0,
                    Message = ''Joined existing room''\<rparr>,
                   s\<lparr>rooms := (rooms s)(k \<mapsto>
                        room\<lparr>Users := Users room @ [u], UpdatedAt := clock e 0\<rparr>)\<rparr>))) \<and>
     (\<not> (\<exists>k room. rooms s k = Some room \<and> u \<in> set (Users room)) \<and>
      \<not> (\<exists>k room. rooms s k = Some room \<and> length (Users room) = 1) \<and>
      len_rooms (rooms s) < MaxRooms (config s) \<and>
      (\<exists>code \<in> set (draws e). rooms s code = None) \<longrightarrow>
        (\<exists>code \<in> set (draws e). rooms s code = None \<and>
           StartChat e s u =
             Some (\<lparr>Status = ''room_assigned'', RoomCode = code, Position = 0,
                    Message = ''Created new room''\<rparr>,
                   s\<lparr>rooms := (rooms s)(code \<mapsto>
                        \<lparr>Code = code, Users = [u], CreatedAt = clock e 0,
                         UpdatedAt = clock e 1\<rparr>)\<rparr>))) \<and>
     (\<not> (\<exists>k room. rooms s k = Some room \<and> u \<in> set (Users room)) \<and>
      \<not> (\<exists>k room. rooms s k = Some room \<and> length (Users room) = 1) \<and>
      \<not> len_rooms (rooms s) < MaxRooms (config s) \<longrightarrow>
        (\<exists>resp s'. StartChat e s u = Some (resp, s') \<and> Status resp = ''queued'' \<and>
           rooms s' = rooms s \<and>
           Position resp = GetQueuePosition s' u \<and> 1 \<le> Position resp))"
proof (intro conjI impI)
  assume "\<exists>k room. rooms s k = Some room \<and> u \<in> set (Users room)"
  then obtain k room where k: "rooms s k = Some room" "u \<in> set (Users room)" by blast
  with assms(1) have "k \<in> set (orders e 0)" by auto
  with k have "find_user_room (orders e 0) (rooms s) u \<noteq> None"
    by (auto simp: find_user_room_None)
  then obtain r where r: "find_user_room (orders e 0) (rooms s) u = Some r" by auto
  from find_user_room_Some[OF r] obtain k' where "rooms s k' = Some r" "u \<in> set (Users r)"
    by blast
  moreover from r have "StartChat e s u =
             Some (\<lparr>Status = ''room_assigned'', RoomCode = Code r, Position = 0,
                    Message = ''Already in room''\<rparr>, s)"
    by (simp add: StartChat_def range_order_def)
  ultimately show "\<exists>k room. rooms s k = Some room \<and> u \<in> set (Users room) \<and>
           StartChat e s u =
             Some (\<lparr>Status = ''room_assigned'', RoomCode = Code room, Position = 0,
                    Message = ''Already in room''\<rparr>, s)"
    by blast
next
  assume a: "\<not> (\<exists>k room. rooms s k = Some room \<and> u \<in> set (Users room)) \<and>
      (\<exists>k room. rooms s k = Some room \<and> length (Users room) = 1)"
  then have nouser: "find_user_room (orders e 0) (rooms s) u = None"
    by (auto simp: find_user_room_None)
  from a obtain k0 room0 where k0: "rooms s k0 = Some room0" "length (Users room0) = 1"
    by blast
  with assms(2) have "k0 \<in> set (orders e 1)" by auto
  with k0 have "find_waiting_room (orders e 1) (rooms s) \<noteq> None"
    by (auto simp: find_waiting_room_None)
  then obtain k room where w: "find_waiting_room (orders e 1) (rooms s) = Some (k, room)"
    by auto
  from find_waiting_room_Some[OF w] have kr: "rooms s k = Some room" "length (Users room) = 1"
    by simp_all
  with a have "u \<notin> set (Users room)" by blast
  with kr nouser w have "StartChat e s u =
             Some (\<lparr>Status = ''room_assigned'', RoomCode = Code room, Position = 0,
                    Message = ''Joined existing room''\<rparr>,
                   s\<lparr>rooms := (rooms s)(k \<mapsto>
                        room\<lparr>Users := Users room @ [u], UpdatedAt := clock e 0\<rparr>)\<rparr>)"
    by (simp add: StartChat_def range_order_def AddUser_eq)
  with kr show "\<exists>k room. rooms s k = Some room \<and> length (Users room) = 1 \<and>
           StartChat e s u =
             Some (\<lparr>Status = ''room_assigned'', RoomCode = Code room, Position = 0,
                    Message = ''Joined existing room''\<rparr>,
                   s\<lparr>rooms := (rooms s)(k \<mapsto>
                        room\<lparr>Users := Users room @ [u], UpdatedAt := clock e 0\<rparr>)\<rparr>)"
    by blast
next
  assume a: "\<not> (\<exists>k room. rooms s k = Some room \<and> u \<in> set (Users room)) \<and>
      \<not> (\<exists>k room. rooms s k = Some room \<and> length (Users room) = 1) \<and>
      len_rooms (rooms s) < MaxRooms (config s) \<and>
      (\<exists>code \<in> set (draws e). rooms s code = None)"
  let ?e = "e\<lparr>orders := \<lambda>n. orders e (Suc (Suc n))\<rparr>"
  from a have nouser: "find_user_room (orders e 0) (rooms s) u = None"
    by (auto simp: find_user_room_None)
  from a have nowait: "find_waiting_room (orders e 1) (rooms s) = None"
    by (auto simp: find_waiting_room_None)
  from a have "generateRoomCode (rooms s) ?e \<noteq> None"
    by (auto simp: generateRoomCode_None)
  then obtain code e3 where g: "generateRoomCode (rooms s) ?e = Some (code, e3)" by auto
  from generateRoomCode_Some[OF g] have c: "rooms s code = None" "code \<in> set (draws e)"
    by simp_all
  from g have "clock e3 = clock e"
    by (auto simp: generateRoomCode_def split: option.splits)
  with a nouser nowait g have "StartChat e s u =
             Some (\<lparr>Status = ''room_assigned'', RoomCode = code, Position = 0,
                    Message = ''Created new room''\<rparr>,
                   s\<lparr>rooms := (rooms s)(code \<mapsto>
                        \<lparr>Code = code, Users = [u], CreatedAt = clock e 0,
                         UpdatedAt = clock e 1\<rparr>)\<rparr>)"
    by (simp add: StartChat_def range_order_def new_room_eq)
  with c show "\<exists>code \<in> set (draws e). rooms s code = None \<and>
           StartChat e s u =
             Some (\<lparr>Status = ''room_assigned'', RoomCode = code, Position = 0,
                    Message = ''Created new room''\<rparr>,
                   s\<lparr>rooms := (rooms s)(code \<mapsto>
                        \<lparr>Code = code, Users = [u], CreatedAt = clock e 0,
                         UpdatedAt = clock e 1\<rparr>)\<rparr>)"
    by blast
next
  assume a: "\<not> (\<exists>k room. rooms s k = Some room \<and> u \<in> set (Users room)) \<and>
      \<not> (\<exists>k room. rooms s k = Some room \<and> length (Users room) = 1) \<and>
      \<not> len_rooms (rooms s) < MaxRooms (config s)"
  let ?e = "e\<lparr>orders := \<lambda>n. orders e (Suc (Suc n))\<rparr>"
  from a have nouser: "find_user_room (orders e 0) (rooms s) u = None"
    by (auto simp: find_user_room_None)
  from a have nowait: "find_waiting_room (orders e 1) (rooms s) = None"
    by (auto simp: find_waiting_room_None)
  from a nouser nowait have "StartChat e s u = Some (addToQueue ?e s u)"
    by (simp add: StartChat_def range_order_def)
  with addToQueue_queued[of ?e s u]
  show "\<exists>resp s'. StartChat e s u = Some (resp, s') \<and> Status resp = ''queued'' \<and>
           rooms s' = rooms s \<and>
           Position resp = GetQueuePosition s' u \<and> 1 \<le> Position resp"
    by auto
qed

theorem StartChat_decision_witness:
  "dom (rooms (NewChatService cfg1)) \<subseteq> set (orders env1 0) \<and>
   dom (rooms (NewChatService cfg1)) \<subseteq> set (orders env1 1) \<and>
   len_rooms (rooms (NewChatService cfg1)) < MaxRooms (config (NewChatService cfg1)) \<and>
   StartChat env1 (NewChatService cfg1) ''u1'' =
     Some (\<lparr>Status = ''room_assigned'', RoomCode = ''ABCDEFGH'', Position = 0,
            Message = ''Created new room''\<rparr>, state1) \<and>
   dom (rooms state1) \<subseteq> set (orders env1 0) \<and> dom (rooms state1) \<subseteq> set (orders env1 1) \<and>
   StartChat env1 state1 ''u2'' =
     Some (\<lparr>Status = ''room_assigned'', RoomCode = ''ABCDEFGH'', Position = 0,
            Message = ''Joined existing room''\<rparr>, state2) \<and>
   dom (rooms state2) \<subseteq> set (orders env1 0) \<and> dom (rooms state2) \<subseteq> set (orders env1 1) \<and>
   StartChat env1 state2 ''u2'' =
     Some (\<lparr>Status = ''room_assigned'', RoomCode = ''ABCDEFGH'', Position = 0,
            Message = ''Already in room''\<rparr>, state2) \<and>
   \<not> len_rooms (rooms state2) < MaxRooms (config state2) \<and>
   (\<exists>resp s'. StartChat env1 state2 ''u3'' = Some (resp, s') \<and> Status resp = ''queued'' \<and>
      rooms s' = rooms state2 \<and> Position resp = GetQueuePosition s' ''u3'' \<and>
      1 \<le> Position resp)"
proof -
  have o0: "dom (rooms (NewChatService cfg1)) \<subseteq> set (orders env1 0)"
    "dom (rooms (NewChatService cfg1)) \<subseteq> set (orders env1 1)"
    by (simp_all add: NewChatService_def)
  have o1: "dom (rooms state1) \<subseteq> set (orders env1 0)" "dom (rooms state1) \<subseteq> set (orders env1 1)"
    by (simp_all add: state1_def env1_def)
  have o2: "dom (rooms state2) \<subseteq> set (orders env1 0)" "dom (rooms state2) \<subseteq> set (orders env1 1)"
    by (simp_all add: state2_def env1_def)
  have h0: "\<not> (\<exists>k room. rooms (NewChatService cfg1) k = Some room \<and> ''u1'' \<in> set (Users room)) \<and>
      \<not> (\<exists>k room. rooms (NewChatService cfg1) k = Some room \<and> length (Users room) = 1) \<and>
      len_rooms (rooms (NewChatService cfg1)) < MaxRooms (config (NewChatService cfg1)) \<and>
      (\<exists>code \<in> set (draws env1). rooms (NewChatService cfg1) code = None)"
    by (simp add: NewChatService_def len_rooms_def cfg1_def env1_def)
  have h1: "\<not> (\<exists>k room. rooms state1 k = Some room \<and> ''u2'' \<in> set (Users room)) \<and>
      (\<exists>k room. rooms state1 k = Some room \<and> length (Users room) = 1)"
    by (auto simp: state1_def room1_def split: if_splits)
  have h2: "\<exists>k room. rooms state2 k = Some room \<and> ''u2'' \<in> set (Users room)"
    by (auto simp: state2_def room2_def)
  have h3: "\<not> (\<exists>k room. rooms state2 k = Some room \<and> ''u3'' \<in> set (Users room)) \<and>
      \<not> (\<exists>k room. rooms state2 k = Some room \<and> length (Users room) = 1) \<and>
      \<not> len_rooms (rooms state2) < MaxRooms (config state2)"
    by (auto simp: state2_def room2_def len_rooms_def cfg1_def split: if_splits)
  from StartChat_decision[OF o0, of "''u1''"] h0
  have "\<exists>code \<in> set (draws env1). rooms (NewChatService cfg1) code = None \<and>
           StartChat env1 (NewChatService cfg1) ''u1'' =
             Some (\<lparr>Status = ''room_assigned'', RoomCode = code, Position = 0,
                    Message = ''Created new room''\<rparr>,
                   (NewChatService cfg1)\<lparr>rooms := (rooms (NewChatService cfg1))(code \<mapsto>
                        \<lparr>Code = code, Users = [''u1''], CreatedAt = clock env1 0,
                         UpdatedAt = clock env1 1\<rparr>)\<rparr>)"
    by blast
  then have 1: "StartChat env1 (NewChatService cfg1) ''u1'' =
     Some (\<lparr>Status = ''room_assigned'', RoomCode = ''ABCDEFGH'', Position = 0,
            Message = ''Created new room''\<rparr>, state1)"
    by (simp add: env1_def NewChatService_def state1_def room1_def)
  from StartChat_decision[OF o1, of "''u2''"] h1
  have "\<exists>k room. rooms state1 k = Some room \<and> length (Users room) = 1 \<and>
           StartChat env1 state1 ''u2'' =
             Some (\<lparr>Status = ''room_assigned'', RoomCode = Code room, Position = 0,
                    Message = ''Joined existing room''\<rparr>,
                   state1\<lparr>rooms := (rooms state1)(k \<mapsto>
                        room\<lparr>Users := Users room @ [''u2''], UpdatedAt := clock env1 0\<rparr>)\<rparr>)"
    by blast
  then have 2: "StartChat env1 state1 ''u2'' =
     Some (\<lparr>Status = ''room_assigned'', RoomCode = ''ABCDEFGH'', Position = 0,
            Message = ''Joined existing room''\<rparr>, state2)"
    by (auto simp: scenario_defs split: if_splits)
  from StartChat_decision[OF o2, of "''u2''"] h2
  have "\<exists>k room. rooms state2 k = Some room \<and> ''u2'' \<in> set (Users room) \<and>
           StartChat env1 state2 ''u2'' =
             Some (\<lparr>Status = ''room_assigned'', RoomCode = Code room, Position = 0,
                    Message = ''Already in room''\<rparr>, state2)"
    by blast
  then have 3: "StartChat env1 state2 ''u2'' =
     Some (\<lparr>Status = ''room_assigned'', RoomCode = ''ABCDEFGH'', Position = 0,
            Message = ''Already in room''\<rparr>, state2)"
    by (auto simp: scenario_defs split: if_splits)
  from StartChat_decision[OF o2, of "''u3''"] h3
  have 4: "\<exists>resp s'. StartChat env1 state2 ''u3'' = Some (resp, s') \<and> Status resp = ''queued'' \<and>
      rooms s' = rooms state2 \<and> Position resp = GetQueuePosition s' ''u3'' \<and>
      1 \<le> Position resp"
    by blast
  from o0 o1 o2 h0 h3 1 2 3 4 show ?thesis by simp
qed

subsection \<open>Starting a chat twice\<close>

lemma StartChat_assigned_member:
  assumes "StartChat e s u = Some (resp, s')" and "Status resp = ''room_assigned''"
  shows "\<exists>k room. rooms s' k = Some room \<and> u \<in> set (Users room) \<and> RoomCode resp = Code room"
proof (cases "find_user_room (orders e 0) (rooms s) u")
  case (Some r)
  from find_user_room_Some[OF Some] obtain k where "rooms s k = Some r" "u \<in> set (Users r)"
    by blast
  moreover from assms(1) Some have "s' = s" "RoomCode resp = Code r"
    by (auto simp: StartChat_def range_order_def)
  ultimately show ?thesis by blast
next
  case nouser: None
  let ?e = "e\<lparr>orders := \<lambda>n. orders e (Suc (Suc n))\<rparr>"
  show ?thesis
  proof (cases "find_waiting_room (orders e 1) (rooms s)")
    case (Some kr)
    obtain k r where kr: "kr = (k, r)" by (cases kr)
    from find_waiting_room_Some[of "orders e 1" "rooms s" k r] Some kr
    have len: "length (Users r) = 1" by simp
    let ?r = "fst (AddUser ?e r u)"
    from len have "u \<in> set (Users ?r)" "Code ?r = Code r"
      by (auto simp: AddUser_eq)
    moreover from assms(1) nouser Some kr have "rooms s' k = Some ?r" "RoomCode resp = Code ?r"
      by (auto simp: StartChat_def range_order_def split: prod.splits)
    ultimately show ?thesis by metis
  next
    case nowait: None
    show ?thesis
    proof (cases "len_rooms (rooms s) < MaxRooms (config s)")
      case True
      with assms(1) nouser nowait obtain code e3 where
        g: "generateRoomCode (rooms s) ?e = Some (code, e3)"
        by (auto simp: StartChat_def range_order_def split: option.splits)
      let ?r = "fst (new_room e3 code u)"
      have "u \<in> set (Users ?r)" "Code ?r = code" by (simp_all add: new_room_eq)
      moreover from assms(1) nouser nowait True g
      have "rooms s' code = Some ?r" "RoomCode resp = Code ?r"
        by (auto simp: StartChat_def range_order_def split: prod.splits)
      ultimately show ?thesis by metis
    next
      case False
      with assms(1) nouser nowait have "addToQueue ?e s u = (resp, s')"
        by (auto simp: StartChat_def range_order_def)
      with addToQueue_queued[of ?e s u] have "Status resp = ''queued''" by auto
      with assms(2) show ?thesis by simp
    qed
  qed
qed

lemma reachable_two_rooms_state: "reachable cfg2 two_rooms_state"
proof -
  let ?r1 = "\<lparr>Code = ''ABCDEFGH'', Users = [''a''], CreatedAt = 1000, UpdatedAt = 1001\<rparr>"
  let ?r1' = "\<lparr>Code = ''ABCDEFGH'', Users = [''a'', ''b''], CreatedAt = 1000, UpdatedAt = 1000\<rparr>"
  let ?r2 = "\<lparr>Code = ''IJKLMNOP'', Users = [''c''], CreatedAt = 1000, UpdatedAt = 1001\<rparr>"
  let ?s1 = "\<lparr>rooms = [''ABCDEFGH'' \<mapsto> ?r1], queue = [], config = cfg2\<rparr>"
  let ?s2 = "\<lparr>rooms = [''ABCDEFGH'' \<mapsto> ?r1'], queue = [], config = cfg2\<rparr>"
  let ?s3 = "\<lparr>rooms = [''ABCDEFGH'' \<mapsto> ?r1', ''IJKLMNOP'' \<mapsto> ?r2], queue = [], config = cfg2\<rparr>"
  have 1: "StartChat env4 (NewChatService cfg2) ''a'' =
      Some (\<lparr>Status = ''room_assigned'', RoomCode = ''ABCDEFGH'', Position = 0,
             Message = ''Created new room''\<rparr>, ?s1)"
    by (simp add: eval_defs env4_def cfg2_def cfg1_def)
  have 2: "JoinRoom env4 ?s1 ''ABCDEFGH'' ''b'' = Inr ?s2"
    by (simp add: JoinRoom_def eval_defs env4_def)
  have 3: "StartChat env4 ?s2 ''c'' =
      Some (\<lparr>Status = ''room_assigned'', RoomCode = ''IJKLMNOP'', Position = 0,
             Message = ''Created new room''\<rparr>, ?s3)"
    by (simp add: eval_defs env4_def cfg2_def cfg1_def)
  have 4: "JoinRoom env4 ?s3 ''IJKLMNOP'' ''a'' = Inr two_rooms_state"
    by (simp add: JoinRoom_def eval_defs env4_def two_rooms_state_def)
  have "reachable cfg2 ?s1" using reach_new 1 by (rule reach_StartChat)
  then have "reachable cfg2 ?s2" using 2 by (rule reach_JoinRoom)
  then have "reachable cfg2 ?s3" using 3 by (rule reach_StartChat)
  then show ?thesis using 4 by (rule reach_JoinRoom)
qed

text \<open>
  The answer of \<^verbatim>\<open>StartChat\<close> for a user who is in two rooms depends on the
  order of the \<^verbatim>\<open>range\<close>: in a reachable state, two calls in a row answer with
  two different codes.
\<close>

lemma StartChat_two_rooms:
  "reachable cfg2 two_rooms_state \<and>
   StartChat env4 two_rooms_state ''a'' =
     Some (\<lparr>Status = ''room_assigned'', RoomCode = ''IJKLMNOP'', Position = 0,
            Message = ''Already in room''\<rparr>, two_rooms_state) \<and>
   StartChat (env4\<lparr>orders := (\<lambda>n. [''ABCDEFGH'', ''IJKLMNOP''])\<rparr>) two_rooms_state ''a'' =
     Some (\<lparr>Status = ''room_assigned'', RoomCode = ''ABCDEFGH'', Position = 0,
            Message = ''Already in room''\<rparr>, two_rooms_state)"
  using reachable_two_rooms_state
  by (simp add: eval_defs env4_def two_rooms_state_def)

text \<open>
  C6 as the claim states it fails: in the scenario, with the one room allowed
  full, \<open>u3\<close> starts a chat twice in a row and is answered \<open>queued\<close> both times.
\<close>

theorem StartChat_twice_counterexample:
  "reachable cfg1 state2 \<and>
   StartChat env1 state2 ''u3'' =
     Some (\<lparr>Status = ''queued'', RoomCode = [], Position = 1,
            Message = ''Added to queue. Position: 1''\<rparr>, state3) \<and>
   StartChat env1 state3 ''u3'' =
     Some (\<lparr>Status = ''queued'', RoomCode = [], Position = 1,
            Message = ''Already in queue''\<rparr>, state3) \<and>
   ''queued'' \<noteq> ''room_assigned''"
  using reachable_state2 StartChat_u3
  by (simp add: eval_defs scenario_defs)

text \<open>
  C6, amended. When a call of \<^verbatim>\<open>StartChat\<close> for a user answers \<open>room_assigned\<close>,
  a call for the same user right after it (its first \<^verbatim>\<open>range\<close> enumerating every
  key of the registry) answers \<open>room_assigned\<close> too, with the code of a room the
  user is a member of, and changes nothing; when the user is a member of one
  room only, the code is the one the first call answered.
\<close>

theorem StartChat_twice:
  assumes "StartChat e s u = Some (resp1, s1)"
    and "Status resp1 = ''room_assigned''"
    and "dom (rooms s1) \<subseteq> set (orders e' 0)"
  shows "\<exists>resp2. StartChat e' s1 u = Some (resp2, s1) \<and>
           Status resp2 = ''room_assigned'' \<and>
           (\<exists>k room. rooms s1 k = Some room \<and> u \<in> set (Users room) \<and>
              RoomCode resp2 = Code room) \<and>
           ((\<forall>k k' room room'. rooms s1 k = Some room \<and> u \<in> set (Users room) \<and>
               rooms s1 k' = Some room' \<and> u \<in> set (Users room') \<longrightarrow> k = k') \<longrightarrow>
              RoomCode resp2 = RoomCode resp1)"
proof -
  from StartChat_assigned_member[OF assms(1,2)] obtain k room where
    k: "rooms s1 k = Some room" "u \<in> set (Users room)" "RoomCode resp1 = Code room"
    by blast
  with assms(3) have "k \<in> set (orders e' 0)" by auto
  with k have "find_user_room (orders e' 0) (rooms s1) u \<noteq> None"
    by (auto simp: find_user_room_None)
  then obtain r where r: "find_user_room (orders e' 0) (rooms s1) u = Some r" by auto
  from find_user_room_Some[OF r] obtain k' where
    k': "rooms s1 k' = Some r" "u \<in> set (Users r)" by blast
  let ?resp = "\<lparr>Status = ''room_assigned'', RoomCode = Code r, Position = 0,
                 Message = ''Already in room''\<rparr>"
  from r have st: "StartChat e' s1 u = Some (?resp, s1)"
    by (simp add: StartChat_def range_order_def)
  have same: "RoomCode ?resp = RoomCode resp1"
    if "\<forall>k k' room room'. rooms s1 k = Some room \<and> u \<in> set (Users room) \<and>
               rooms s1 k' = Some room' \<and> u \<in> set (Users room') \<longrightarrow> k = k'"
  proof -
    from that k k' have "k = k'" by blast
    with k k' show ?thesis by simp
  qed
  from st k' same show ?thesis by auto
qed

theorem StartChat_twice_witness:
  "StartChat env1 (NewChatService cfg1) ''u1'' =
     Some (\<lparr>Status = ''room_assigned'', RoomCode = ''ABCDEFGH'', Position = 0,
            Message = ''Created new room''\<rparr>, state1) \<and>
   dom (rooms state1) \<subseteq> set (orders env1 0) \<and>
   (\<exists>resp2. StartChat env1 state1 ''u1'' = Some (resp2, state1) \<and>
      Status resp2 = ''room_assigned'' \<and> RoomCode resp2 = ''ABCDEFGH'')"
proof -
  have c: "dom (rooms state1) \<subseteq> set (orders env1 0)" by (simp add: state1_def env1_def)
  have a: "Status \<lparr>Status = ''room_assigned'', RoomCode = ''ABCDEFGH'', Position = 0,
            Message = ''Created new room''\<rparr> = ''room_assigned''" by simp
  have u: "\<forall>k k' room room'. rooms state1 k = Some room \<and> ''u1'' \<in> set (Users room) \<and>
      rooms state1 k' = Some room' \<and> ''u1'' \<in> set (Users room') \<longrightarrow> k = k'"
    by (auto simp: state1_def split: if_splits)
  from StartChat_twice[OF StartChat_u1 a c] u
  have "\<exists>resp2. StartChat env1 state1 ''u1'' = Some (resp2, state1) \<and>
      Status resp2 = ''room_assigned'' \<and> RoomCode resp2 = ''ABCDEFGH''"
    by auto
  with StartChat_u1 c u show ?thesis by simp
qed

subsection \<open>The promotion sweep\<close>

lemma AddUser_draws: "draws (snd (AddUser e r u)) = draws e"
  by (simp add: AddUser_eq)

lemma AddUser_Code: "Code (fst (AddUser e r u)) = Code r"
  by (simp add: AddUser_eq)

lemma AddUser_waiting_member:
  "length (Users r) = 1 \<Longrightarrow> u \<in> set (Users (fst (AddUser e r u)))"
  by (simp add: AddUser_eq)

lemma promotion_pass_returns:
  "distinct (draws e) \<Longrightarrow> set (draws e) \<inter> dom rs = {} \<Longrightarrow> length q \<le> length (draws e) \<Longrightarrow>
     promotion_pass e cfg rs q \<noteq> None"
proof (induction q arbitrary: e rs)
  case Nil
  show ?case by simp
next
  case (Cons x q)
  let ?e1 = "e\<lparr>orders := \<lambda>n. orders e (Suc n)\<rparr>"
  show ?case
  proof (cases "find_waiting_room (orders e 0) rs")
    case (Some kr)
    obtain k room where kr: "kr = (k, room)" by (cases kr)
    let ?a = "AddUser ?e1 room (Username x)"
    from find_waiting_room_Some[of "orders e 0" rs k room] Some kr
    have "rs k = Some room" by simp
    then have dm: "dom (rs(k \<mapsto> fst ?a)) = dom rs" by auto
    have 1: "distinct (draws (snd ?a))"
      unfolding AddUser_draws using Cons.prems(1) by simp
    have 2: "set (draws (snd ?a)) \<inter> dom (rs(k \<mapsto> fst ?a)) = {}"
      unfolding AddUser_draws dm using Cons.prems(2) by simp
    have 3: "length q \<le> length (draws (snd ?a))"
      unfolding AddUser_draws using Cons.prems(3) by simp
    from 1 2 3 have "promotion_pass (snd ?a) cfg (rs(k \<mapsto> fst ?a)) q \<noteq> None"
      by (rule Cons.IH)
    with Some kr show ?thesis by (simp add: range_order_def case_prod_beta)
  next
    case None
    show ?thesis
    proof (cases "len_rooms rs < MaxRooms cfg")
      case True
      from Cons.prems(3) obtain c cs where d: "draws e = c # cs" by (cases "draws e") auto
      with Cons.prems(2) have fresh: "rs c = None" by auto
      with d have g: "generateRoomCode rs ?e1 = Some (c, ?e1\<lparr>draws := cs\<rparr>)"
        by (simp add: generateRoomCode_def)
      let ?n = "new_room (?e1\<lparr>draws := cs\<rparr>) c (Username x)"
      have dr: "draws (snd ?n) = cs" by (simp add: new_room_eq)
      have 1: "distinct (draws (snd ?n))"
        unfolding dr using Cons.prems(1) d by simp
      have 2: "set (draws (snd ?n)) \<inter> dom (rs(c \<mapsto> fst ?n)) = {}"
        unfolding dr using Cons.prems(1,2) d by auto
      have 3: "length q \<le> length (draws (snd ?n))"
        unfolding dr using Cons.prems(3) d by simp
      from 1 2 3 have "promotion_pass (snd ?n) cfg (rs(c \<mapsto> fst ?n)) q \<noteq> None"
        by (rule Cons.IH)
      with None True g show ?thesis by (simp add: range_order_def case_prod_beta)
    next
      case False
      from Cons.prems have "promotion_pass ?e1 cfg rs q \<noteq> None"
        by (intro Cons.IH) simp_all
      with None False show ?thesis by (auto simp: range_order_def)
    qed
  qed
qed

lemma promotion_pass_join:
  assumes "dom rs \<subseteq> set (orders e 0)"
    and "\<exists>k r. rs k = Some r \<and> length (Users r) = 1"
  shows "\<exists>k r. rs k = Some r \<and> length (Users r) = 1 \<and>
           Username entry \<in> set (Users (fst (AddUser (e\<lparr>orders := \<lambda>n. orders e (Suc n)\<rparr>) r (Username entry)))) \<and>
           promotion_pass e cfg rs (entry # rest) =
             promotion_pass (snd (AddUser (e\<lparr>orders := \<lambda>n. orders e (Suc n)\<rparr>) r (Username entry))) cfg
               (rs(k \<mapsto> fst (AddUser (e\<lparr>orders := \<lambda>n. orders e (Suc n)\<rparr>) r (Username entry)))) rest"
proof -
  from assms(2) obtain k0 r0 where k0: "rs k0 = Some r0" "length (Users r0) = 1" by blast
  with assms(1) have "k0 \<in> set (orders e 0)" by auto
  with k0 have "find_waiting_room (orders e 0) rs \<noteq> None"
    by (auto simp: find_waiting_room_None)
  then obtain k r where w: "find_waiting_room (orders e 0) rs = Some (k, r)" by auto
  from find_waiting_room_Some[OF w] have kr: "rs k = Some r" "length (Users r) = 1"
    by simp_all
  from w have "promotion_pass e cfg rs (entry # rest) =
             promotion_pass (snd (AddUser (e\<lparr>orders := \<lambda>n. orders e (Suc n)\<rparr>) r (Username entry))) cfg
               (rs(k \<mapsto> fst (AddUser (e\<lparr>orders := \<lambda>n. orders e (Suc n)\<rparr>) r (Username entry)))) rest"
    by (simp add: range_order_def case_prod_beta)
  with kr AddUser_waiting_member[OF kr(2)] show ?thesis by blast
qed

lemma promotion_pass_create:
  assumes "\<not> (\<exists>k r. rs k = Some r \<and> length (Users r) = 1)"
    and "len_rooms rs < MaxRooms cfg"
    and "\<exists>code \<in> set (draws e). rs code = None"
  shows "\<exists>code \<in> set (draws e). \<exists>e'. rs code = None \<and>
           promotion_pass e cfg rs (entry # rest) =
             promotion_pass e' cfg
               (rs(code \<mapsto> \<lparr>Code = code, Users = [Username entry], CreatedAt = clock e 0,
                              UpdatedAt = clock e 1\<rparr>)) rest"
proof -
  let ?e1 = "e\<lparr>orders := \<lambda>n. orders e (Suc n)\<rparr>"
  from assms(1) have nowait: "find_waiting_room (orders e 0) rs = None"
    by (auto simp: find_waiting_room_None)
  from assms(3) have "generateRoomCode rs ?e1 \<noteq> None"
    by (auto simp: generateRoomCode_None)
  then obtain code e3 where g: "generateRoomCode rs ?e1 = Some (code, e3)" by auto
  from generateRoomCode_Some[OF g] have c: "rs code = None" "code \<in> set (draws e)"
    by simp_all
  from g have "clock e3 = clock e"
    by (auto simp: generateRoomCode_def split: option.splits)
  with nowait assms(2) g have "promotion_pass e cfg rs (entry # rest) =
             promotion_pass (snd (new_room e3 code (Username entry))) cfg
               (rs(code \<mapsto> \<lparr>Code = code, Users = [Username entry], CreatedAt = clock e 0,
                              UpdatedAt = clock e 1\<rparr>)) rest"
    by (simp add: range_order_def new_room_eq)
  with c show ?thesis by blast
qed

lemma promotion_pass_keep:
  assumes "\<not> (\<exists>k r. rs k = Some r \<and> length (Users r) = 1)"
    and "\<not> len_rooms rs < MaxRooms cfg"
  shows "promotion_pass e cfg rs (entry # rest) =
           (case promotion_pass (e\<lparr>orders := \<lambda>n. orders e (Suc n)\<rparr>) cfg rs rest of
              None \<Rightarrow> None
            | Some (rs', kept) \<Rightarrow> Some (rs', entry # kept))"
proof -
  from assms(1) have "find_waiting_room (orders e 0) rs = None"
    by (auto simp: find_waiting_room_None)
  with assms(2) show ?thesis by (simp add: range_order_def)
qed

text \<open>
  C5. One tick of the promotion sweep is the single pass \<open>promotion_pass\<close> over
  the queue, front to back: the index loop of the source returns what the pass
  returns, the rooms after the pass and, as the new queue, the entries the pass
  keeps. The entries kept are a subsequence of the queue, so their relative
  order is unchanged. The pass treats the entry at the front as follows, \<open>e0\<close>
  being the environment and \<open>rs\<close> the rooms at that moment. When (the \<^verbatim>\<open>range\<close>
  enumerating every key) some room has exactly one member, the entry is not
  kept and \<^verbatim>\<open>AddUser\<close> is applied to such a room, after which the user is one of
  its members. Otherwise, when the number of rooms is below \<^verbatim>\<open>MaxRooms\<close> and the
  draws hold a code that is not a key, the entry is not kept and a room with
  such a code and the user as its only member is inserted. Otherwise the
  entry is kept and the pass goes on with the same rooms. The tick returns when
  the draws are different codes, none of them a key of the registry, and at least
  as many as the queue has entries.
\<close>

theorem promotion_sweep_single_pass:
  "tryAssignQueuedUsers e s =
     (case promotion_pass e (config s) (rooms s) (queue s) of
        None \<Rightarrow> None
      | Some (rs', kept) \<Rightarrow> Some (s\<lparr>rooms := rs', queue := kept\<rparr>)) \<and>
   (\<forall>rs' kept. promotion_pass e (config s) (rooms s) (queue s) = Some (rs', kept) \<longrightarrow>
      subseq kept (queue s)) \<and>
   (distinct (draws e) \<and> set (draws e) \<inter> dom (rooms s) = {} \<and>
    length (queue s) \<le> length (draws e) \<longrightarrow> tryAssignQueuedUsers e s \<noteq> None) \<and>
   (dom rs \<subseteq> set (orders e0 0) \<and> (\<exists>k r. rs k = Some r \<and> length (Users r) = 1) \<longrightarrow>
      (\<exists>k r. rs k = Some r \<and> length (Users r) = 1 \<and>
         Username entry \<in> set (Users (fst (AddUser (e0\<lparr>orders := \<lambda>n. orders e0 (Suc n)\<rparr>) r (Username entry)))) \<and>
         promotion_pass e0 cfg rs (entry # rest) =
           promotion_pass (snd (AddUser (e0\<lparr>orders := \<lambda>n. orders e0 (Suc n)\<rparr>) r (Username entry))) cfg
             (rs(k \<mapsto> fst (AddUser (e0\<lparr>orders := \<lambda>n. orders e0 (Suc n)\<rparr>) r (Username entry)))) rest)) \<and>
   (\<not> (\<exists>k r. rs k = Some r \<and> length (Users r) = 1) \<and> len_rooms rs < MaxRooms cfg \<and>
    (\<exists>code \<in> set (draws e0). rs code = None) \<longrightarrow>
      (\<exists>code \<in> set (draws e0). \<exists>e'. rs code = None \<and>
         promotion_pass e0 cfg rs (entry # rest) =
           promotion_pass e' cfg
             (rs(code \<mapsto> \<lparr>Code = code, Users = [Username entry], CreatedAt = clock e0 0,
                            UpdatedAt = clock e0 1\<rparr>)) rest)) \<and>
   (\<not> (\<exists>k r. rs k = Some r \<and> length (Users r) = 1) \<and> \<not> len_rooms rs < MaxRooms cfg \<longrightarrow>
      promotion_pass e0 cfg rs (entry # rest) =
        (case promotion_pass (e0\<lparr>orders := \<lambda>n. orders e0 (Suc n)\<rparr>) cfg rs rest of
           None \<Rightarrow> None
         | Some (rs', kept) \<Rightarrow> Some (rs', entry # kept)))"
proof (intro conjI allI impI)
  show "tryAssignQueuedUsers e s =
     (case promotion_pass e (config s) (rooms s) (queue s) of
        None \<Rightarrow> None
      | Some (rs', kept) \<Rightarrow> Some (s\<lparr>rooms := rs', queue := kept\<rparr>))"
    by (rule tryAssignQueuedUsers_pass)
next
  fix rs' kept
  assume "promotion_pass e (config s) (rooms s) (queue s) = Some (rs', kept)"
  then show "subseq kept (queue s)" by (rule promotion_pass_subseq)
next
  assume "distinct (draws e) \<and> set (draws e) \<inter> dom (rooms s) = {} \<and>
    length (queue s) \<le> length (draws e)"
  then have "promotion_pass e (config s) (rooms s) (queue s) \<noteq> None"
    by (intro promotion_pass_returns) simp_all
  then show "tryAssignQueuedUsers e s \<noteq> None"
    by (auto simp: tryAssignQueuedUsers_pass)
next
  assume "dom rs \<subseteq> set (orders e0 0) \<and> (\<exists>k r. rs k = Some r \<and> length (Users r) = 1)"
  then show "\<exists>k r. rs k = Some r \<and> length (Users r) = 1 \<and>
         Username entry \<in> set (Users (fst (AddUser (e0\<lparr>orders := \<lambda>n. orders e0 (Suc n)\<rparr>) r (Username entry)))) \<and>
         promotion_pass e0 cfg rs (entry # rest) =
           promotion_pass (snd (AddUser (e0\<lparr>orders := \<lambda>n. orders e0 (Suc n)\<rparr>) r (Username entry))) cfg
             (rs(k \<mapsto> fst (AddUser (e0\<lparr>orders := \<lambda>n. orders e0 (Suc n)\<rparr>) r (Username entry)))) rest"
    by (intro promotion_pass_join) simp_all
next
  assume "\<not> (\<exists>k r. rs k = Some r \<and> length (Users r) = 1) \<and> len_rooms rs < MaxRooms cfg \<and>
    (\<exists>code \<in> set (draws e0). rs code = None)"
  then show "\<exists>code \<in> set (draws e0). \<exists>e'. rs code = None \<and>
         promotion_pass e0 cfg rs (entry # rest) =
           promotion_pass e' cfg
             (rs(code \<mapsto> \<lparr>Code = code, Users = [Username entry], CreatedAt = clock e0 0,
                            UpdatedAt = clock e0 1\<rparr>)) rest"
    by (intro promotion_pass_create) simp_all
next
  assume "\<not> (\<exists>k r. rs k = Some r \<and> length (Users r) = 1) \<and> \<not> len_rooms rs < MaxRooms cfg"
  then show "promotion_pass e0 cfg rs (entry # rest) =
        (case promotion_pass (e0\<lparr>orders := \<lambda>n. orders e0 (Suc n)\<rparr>) cfg rs rest of
           None \<Rightarrow> None
         | Some (rs', kept) \<Rightarrow> Some (rs', entry # kept))"
    by (intro promotion_pass_keep) simp_all
qed

lemma sweep_state_pass:
  "promotion_pass env5 (config sweep_state) (rooms sweep_state) (queue sweep_state) =
     Some ([''ABCDEFGH'' \<mapsto>
             \<lparr>Code = ''ABCDEFGH'', Users = [''x'', ''y''], CreatedAt = 1000, UpdatedAt = 1002\<rparr>],
           [\<lparr>Username = ''z'', QueuedAt = 30\<rparr>])"
  by (simp add: sweep_state_def env5_def cfg1_def eval_defs)

theorem promotion_sweep_single_pass_witness:
  "distinct (draws env5) \<and> set (draws env5) \<inter> dom (rooms sweep_state) = {} \<and>
   length (queue sweep_state) \<le> length (draws env5) \<and>
   tryAssignQueuedUsers env5 sweep_state \<noteq> None \<and>
   tryAssignQueuedUsers env5 sweep_state =
     Some (sweep_state
            \<lparr>rooms := [''ABCDEFGH'' \<mapsto>
                \<lparr>Code = ''ABCDEFGH'', Users = [''x'', ''y''], CreatedAt = 1000, UpdatedAt = 1002\<rparr>],
             queue := [\<lparr>Username = ''z'', QueuedAt = 30\<rparr>]\<rparr>) \<and>
   subseq [\<lparr>Username = ''z'', QueuedAt = 30\<rparr>] (queue sweep_state) \<and>
   len_rooms Map.empty < MaxRooms cfg1 \<and>
   promotion_pass env5 cfg1 Map.empty [\<lparr>Username = ''x'', QueuedAt = 10\<rparr>] =
     Some ([''ABCDEFGH'' \<mapsto>
             \<lparr>Code = ''ABCDEFGH'', Users = [''x''], CreatedAt = 1000, UpdatedAt = 1001\<rparr>], []) \<and>
   dom [''ABCDEFGH'' \<mapsto> room1] \<subseteq> set (orders env5 0) \<and>
   promotion_pass env5 cfg1 [''ABCDEFGH'' \<mapsto> room1] [\<lparr>Username = ''y'', QueuedAt = 20\<rparr>] =
     Some ([''ABCDEFGH'' \<mapsto> room1\<lparr>Users := [''u1'', ''y''], UpdatedAt := 1000\<rparr>], []) \<and>
   \<not> len_rooms [''ABCDEFGH'' \<mapsto> room2] < MaxRooms cfg1 \<and>
   promotion_pass env5 cfg1 [''ABCDEFGH'' \<mapsto> room2] [\<lparr>Username = ''z'', QueuedAt = 30\<rparr>] =
     Some ([''ABCDEFGH'' \<mapsto> room2], [\<lparr>Username = ''z'', QueuedAt = 30\<rparr>])"
proof -
  let ?x = "\<lparr>Username = ''x'', QueuedAt = 10\<rparr>"
  let ?y = "\<lparr>Username = ''y'', QueuedAt = 20\<rparr>"
  let ?z = "\<lparr>Username = ''z'', QueuedAt = 30\<rparr>"
  let ?shift = "env5\<lparr>orders := \<lambda>n. orders env5 (Suc n)\<rparr>"
  note inst = promotion_sweep_single_pass[of env5 sweep_state]
  have fuel: "distinct (draws env5) \<and> set (draws env5) \<inter> dom (rooms sweep_state) = {} \<and>
      length (queue sweep_state) \<le> length (draws env5)"
    by (simp add: env5_def sweep_state_def)
  from inst[of Map.empty env5 ?x cfg1 "[]"] fuel
  have ret: "tryAssignQueuedUsers env5 sweep_state \<noteq> None" by blast
  from inst[of Map.empty env5 ?x cfg1 "[]"] sweep_state_pass
  have run: "tryAssignQueuedUsers env5 sweep_state =
     Some (sweep_state
            \<lparr>rooms := [''ABCDEFGH'' \<mapsto>
                \<lparr>Code = ''ABCDEFGH'', Users = [''x'', ''y''], CreatedAt = 1000, UpdatedAt = 1002\<rparr>],
             queue := [?z]\<rparr>)"
    by simp
  from inst[of Map.empty env5 ?x cfg1 "[]"] sweep_state_pass
  have sub: "subseq [?z] (queue sweep_state)" by blast
  have hc: "\<not> (\<exists>k r. Map.empty k = Some (r::ChatRoom) \<and> length (Users r) = 1) \<and>
      len_rooms Map.empty < MaxRooms cfg1 \<and>
      (\<exists>code \<in> set (draws env5). (Map.empty :: string \<rightharpoonup> ChatRoom) code = None)"
    by (auto simp: len_rooms_def cfg1_def env5_def)
  from inst[of Map.empty env5 ?x cfg1 "[]"] hc
  have "\<exists>code \<in> set (draws env5). \<exists>e'. (Map.empty :: string \<rightharpoonup> ChatRoom) code = None \<and>
         promotion_pass env5 cfg1 Map.empty [?x] =
           promotion_pass e' cfg1
             [code \<mapsto> \<lparr>Code = code, Users = [Username ?x], CreatedAt = clock env5 0,
                            UpdatedAt = clock env5 1\<rparr>] []"
    by blast
  then have create: "promotion_pass env5 cfg1 Map.empty [?x] =
     Some ([''ABCDEFGH'' \<mapsto>
             \<lparr>Code = ''ABCDEFGH'', Users = [''x''], CreatedAt = 1000, UpdatedAt = 1001\<rparr>], [])"
    by (auto simp: env5_def cfg1_def eval_defs)
  have hj: "dom [''ABCDEFGH'' \<mapsto> room1] \<subseteq> set (orders env5 0) \<and>
      (\<exists>k r. [''ABCDEFGH'' \<mapsto> room1] k = Some r \<and> length (Users r) = 1)"
    by (auto simp: env5_def room1_def)
  from inst[of "[''ABCDEFGH'' \<mapsto> room1]" env5 ?y cfg1 "[]"] hj
  have "\<exists>k r. [''ABCDEFGH'' \<mapsto> room1] k = Some r \<and> length (Users r) = 1 \<and>
         Username ?y \<in> set (Users (fst (AddUser ?shift r (Username ?y)))) \<and>
         promotion_pass env5 cfg1 [''ABCDEFGH'' \<mapsto> room1] [?y] =
           promotion_pass (snd (AddUser ?shift r (Username ?y))) cfg1
             ([''ABCDEFGH'' \<mapsto> room1](k \<mapsto> fst (AddUser ?shift r (Username ?y)))) []"
    by blast
  then have join: "promotion_pass env5 cfg1 [''ABCDEFGH'' \<mapsto> room1] [?y] =
     Some ([''ABCDEFGH'' \<mapsto> room1\<lparr>Users := [''u1'', ''y''], UpdatedAt := 1000\<rparr>], [])"
    by (simp add: env5_def cfg1_def room1_def eval_defs)
  have hk: "\<not> (\<exists>k r. [''ABCDEFGH'' \<mapsto> room2] k = Some r \<and> length (Users r) = 1) \<and>
      \<not> len_rooms [''ABCDEFGH'' \<mapsto> room2] < MaxRooms cfg1"
    by (auto simp: room2_def len_rooms_def cfg1_def split: if_splits)
  from inst[of "[''ABCDEFGH'' \<mapsto> room2]" env5 ?z cfg1 "[]"] hk
  have "promotion_pass env5 cfg1 [''ABCDEFGH'' \<mapsto> room2] [?z] =
        (case promotion_pass ?shift cfg1 [''ABCDEFGH'' \<mapsto> room2] [] of
           None \<Rightarrow> None
         | Some (rs', kept) \<Rightarrow> Some (rs', ?z # kept))"
    by blast
  then have keep: "promotion_pass env5 cfg1 [''ABCDEFGH'' \<mapsto> room2] [?z] =
     Some ([''ABCDEFGH'' \<mapsto> room2], [?z])"
    by simp
  from fuel ret run sub hc create hj join hk keep show ?thesis by simp
qed

subsection \<open>Key orders and enumerations\<close>

text \<open>
  A key order that lists every key of the map, possibly more than once and
  among keys the map does not hold, makes the loops that leave at the first
  hit behave as some enumeration of the map proper does: one that lists each
  key of the map once and nothing else. So the orders of the environment give
  the loops the behaviours of a \<^verbatim>\<open>range\<close> over the map, and no other.
\<close>

lemma enumeration_with_head:
  assumes "finite A" and "k \<in> A"
  shows "\<exists>ks. distinct (k # ks) \<and> set (k # ks) = A"
proof -
  from assms(1) have "finite (A - {k})" by simp
  then have "\<exists>ks. set ks = A - {k} \<and> distinct ks" by (rule finite_distinct_list)
  then obtain ks where "set ks = A - {k}" "distinct ks" by (elim exE conjE)
  with assms(2) have "distinct (k # ks) \<and> set (k # ks) = A" by auto
  then show ?thesis by blast
qed

lemma find_waiting_room_enumeration:
  assumes "dom rs \<subseteq> set ord"
  shows "\<exists>ks. distinct ks \<and> set ks = dom rs \<and>
           find_waiting_room ks rs = find_waiting_room ord rs"
proof -
  from assms have fin: "finite (dom rs)" by (rule finite_subset) simp
  show ?thesis
  proof (cases "find_waiting_room ord rs")
    case None
    from fin have "\<exists>ks. set ks = dom rs \<and> distinct ks" by (rule finite_distinct_list)
    then obtain ks where ks: "set ks = dom rs" "distinct ks" by (elim exE conjE)
    from None assms have "\<forall>k r. rs k = Some r \<longrightarrow> length (Users r) \<noteq> 1"
      by (auto simp: find_waiting_room_None)
    then have "find_waiting_room ks rs = None" by (simp add: find_waiting_room_None)
    with None have "find_waiting_room ks rs = find_waiting_room ord rs" by simp
    with ks show ?thesis by (intro exI[of _ ks] conjI)
  next
    case (Some kr)
    obtain k r where kr: "kr = (k, r)" by (cases kr)
    from find_waiting_room_Some[of ord rs k r] Some kr
    have k: "rs k = Some r" "length (Users r) = 1" by simp_all
    then have "k \<in> dom rs" by auto
    from enumeration_with_head[OF fin this] obtain ks where
      ks: "distinct (k # ks)" "set (k # ks) = dom rs" by blast
    from k have "find_waiting_room (k # ks) rs = Some (k, r)" by (simp add: IsWaiting_def)
    with Some kr have "find_waiting_room (k # ks) rs = find_waiting_room ord rs" by simp
    with ks show ?thesis by (intro exI[of _ "k # ks"] conjI)
  qed
qed

lemma find_user_room_enumeration:
  assumes "dom rs \<subseteq> set ord"
  shows "\<exists>ks. distinct ks \<and> set ks = dom rs \<and>
           find_user_room ks rs u = find_user_room ord rs u"
proof -
  from assms have fin: "finite (dom rs)" by (rule finite_subset) simp
  show ?thesis
  proof (cases "find_user_room ord rs u")
    case None
    from fin have "\<exists>ks. set ks = dom rs \<and> distinct ks" by (rule finite_distinct_list)
    then obtain ks where ks: "set ks = dom rs" "distinct ks" by (elim exE conjE)
    from None assms have "\<forall>k r. rs k = Some r \<longrightarrow> u \<notin> set (Users r)"
      by (auto simp: find_user_room_None)
    then have "find_user_room ks rs u = None" by (simp add: find_user_room_None)
    with None have "find_user_room ks rs u = find_user_room ord rs u" by simp
    with ks show ?thesis by (intro exI[of _ ks] conjI)
  next
    case (Some r)
    from find_user_room_Some[OF Some] obtain k where
      k: "rs k = Some r" "u \<in> set (Users r)" by blast
    then have "k \<in> dom rs" by auto
    from enumeration_with_head[OF fin this] obtain ks where
      ks: "distinct (k # ks)" "set (k # ks) = dom rs" by blast
    from k have "find_user_room (k # ks) rs u = Some r" by (simp add: HasUser_set)
    with Some have "find_user_room (k # ks) rs u = find_user_room ord rs u" by simp
    with ks show ?thesis by (intro exI[of _ "k # ks"] conjI)
  qed
qed

lemma roomsToDelete_loop_enumeration:
  assumes "dom rs \<subseteq> set ord" and "distinct ks" and "set ks = dom rs"
  shows "delete_loop (roomsToDelete_loop now interval ord rs []) rs =
         delete_loop (roomsToDelete_loop now interval ks rs []) rs"
proof
  fix k
  from assms(1,3) show "delete_loop (roomsToDelete_loop now interval ord rs []) rs k =
         delete_loop (roomsToDelete_loop now interval ks rs []) rs k"
    by (auto simp: delete_loop_apply roomsToDelete_loop_set)
qed

subsection \<open>Every reachable state is well formed\<close>

lemma rooms_wf_upd: "rooms_wf rs \<Longrightarrow> Code r = k \<Longrightarrow> rooms_wf (rs(k \<mapsto> r))"
  by (simp add: rooms_wf_def)

lemma rooms_wf_del: "rooms_wf rs \<Longrightarrow> rooms_wf (rs(k := None))"
  by (simp add: rooms_wf_def)

lemma rooms_wfD: "rooms_wf rs \<Longrightarrow> rs k = Some r \<Longrightarrow> Code r = k"
  by (simp add: rooms_wf_def)

lemma RemoveUser_Code: "Code (fst (RemoveUser e r u)) = Code r"
  by (simp add: RemoveUser_eq)

lemma new_room_Code: "Code (fst (new_room e code u)) = code"
  by (simp add: new_room_eq)

lemma addToQueue_distinct:
  "distinct (map Username (queue s)) \<Longrightarrow>
     distinct (map Username (queue (snd (addToQueue e s u))))"
proof (cases "u \<in> Username ` set (queue s)")
  case True
  assume "distinct (map Username (queue s))"
  with addToQueue_present[OF True, of e] show ?thesis by auto
next
  case False
  assume "distinct (map Username (queue s))"
  with addToQueue_absent[OF False, of e] False show ?thesis by auto
qed

lemma StartChat_wf:
  assumes wf: "state_wf s" and st: "StartChat e s u = Some (resp, s')"
  shows "state_wf s'"
proof (cases "find_user_room (orders e 0) (rooms s) u")
  case (Some r)
  with st have "s' = s" by (simp add: StartChat_def range_order_def)
  with wf show ?thesis by simp
next
  case nouser: None
  let ?e = "e\<lparr>orders := \<lambda>n. orders e (Suc (Suc n))\<rparr>"
  show ?thesis
  proof (cases "find_waiting_room (orders e 1) (rooms s)")
    case (Some kr)
    obtain k r where kr: "kr = (k, r)" by (cases kr)
    from Some kr have "rooms s k = Some r" by (simp add: find_waiting_room_Some)
    with wf have "Code r = k" by (auto simp: state_wf_def dest: rooms_wfD)
    then have "Code (fst (AddUser ?e r u)) = k" by (simp add: AddUser_Code)
    moreover from st nouser Some kr
    have "s' = s\<lparr>rooms := (rooms s)(k \<mapsto> fst (AddUser ?e r u))\<rparr>"
      by (auto simp: StartChat_def range_order_def case_prod_beta)
    ultimately show ?thesis using wf by (simp add: state_wf_def rooms_wf_upd)
  next
    case nowait: None
    show ?thesis
    proof (cases "len_rooms (rooms s) < MaxRooms (config s)")
      case True
      with st nouser nowait obtain code e3 where
        g: "generateRoomCode (rooms s) ?e = Some (code, e3)"
        by (auto simp: StartChat_def range_order_def split: option.splits)
      from st nouser nowait True g
      have "s' = s\<lparr>rooms := (rooms s)(code \<mapsto> fst (new_room e3 code u))\<rparr>"
        by (auto simp: StartChat_def range_order_def case_prod_beta)
      with wf show ?thesis by (simp add: state_wf_def rooms_wf_upd new_room_Code)
    next
      case False
      with st nouser nowait have "s' = snd (addToQueue ?e s u)"
        by (auto simp: StartChat_def range_order_def)
      with wf show ?thesis by (simp add: state_wf_def addToQueue_rooms addToQueue_distinct)
    qed
  qed
qed

lemma JoinRoom_wf:
  assumes wf: "state_wf s" and j: "JoinRoom e s code u = Inr s'"
  shows "state_wf s'"
proof (cases "rooms s code")
  case None
  with j show ?thesis by (simp add: JoinRoom_def)
next
  case (Some r)
  with wf have "Code r = code" by (auto simp: state_wf_def dest: rooms_wfD)
  then have c: "Code (fst (AddUser e r u)) = code" by (simp add: AddUser_Code)
  from j Some have "s' = s \<or> s' = s\<lparr>rooms := (rooms s)(code \<mapsto> fst (AddUser e r u))\<rparr>"
    by (auto simp: JoinRoom_def case_prod_beta split: if_splits)
  with wf c show ?thesis by (auto simp: state_wf_def rooms_wf_upd)
qed

lemma LeaveRoom_wf:
  assumes wf: "state_wf s"
  shows "state_wf (LeaveRoom e s code u)"
proof (cases "rooms s code")
  case None
  with wf show ?thesis by (simp add: LeaveRoom_def)
next
  case (Some r)
  with wf have "Code r = code" by (auto simp: state_wf_def dest: rooms_wfD)
  then have c: "Code (fst (RemoveUser e r u)) = code" by (simp add: RemoveUser_Code)
  from Some have "LeaveRoom e s code u = s\<lparr>rooms := (rooms s)(code := None)\<rparr> \<or>
      LeaveRoom e s code u = s\<lparr>rooms := (rooms s)(code \<mapsto> fst (RemoveUser e r u))\<rparr>"
    by (simp add: LeaveRoom_def case_prod_beta)
  with wf c show ?thesis by (auto simp: state_wf_def rooms_wf_upd rooms_wf_del)
qed

lemma promotion_pass_wf:
  "rooms_wf rs \<Longrightarrow> promotion_pass e cfg rs q = Some (rs', kept) \<Longrightarrow> rooms_wf rs'"
proof (induction q arbitrary: e rs kept)
  case Nil
  then show ?case by simp
next
  case (Cons x q)
  let ?e1 = "e\<lparr>orders := \<lambda>n. orders e (Suc n)\<rparr>"
  show ?case
  proof (cases "find_waiting_room (orders e 0) rs")
    case (Some kr)
    obtain k room where kr: "kr = (k, room)" by (cases kr)
    let ?a = "AddUser ?e1 room (Username x)"
    from Some kr have "rs k = Some room" by (simp add: find_waiting_room_Some)
    with Cons.prems(1) have "Code room = k" by (rule rooms_wfD)
    then have "Code (fst ?a) = k" by (simp add: AddUser_Code)
    with Cons.prems(1) have wf: "rooms_wf (rs(k \<mapsto> fst ?a))" by (rule rooms_wf_upd)
    from Cons.prems(2) Some kr
    have "promotion_pass (snd ?a) cfg (rs(k \<mapsto> fst ?a)) q = Some (rs', kept)"
      by (simp add: range_order_def case_prod_beta)
    with wf show ?thesis by (rule Cons.IH)
  next
    case None
    show ?thesis
    proof (cases "len_rooms rs < MaxRooms cfg")
      case True
      with Cons.prems(2) None obtain code e2 where
        g: "generateRoomCode rs ?e1 = Some (code, e2)"
        by (auto simp: range_order_def split: option.splits)
      let ?n = "new_room e2 code (Username x)"
      from Cons.prems(1) have wf: "rooms_wf (rs(code \<mapsto> fst ?n))"
        by (rule rooms_wf_upd) (rule new_room_Code)
      from Cons.prems(2) None True g
      have "promotion_pass (snd ?n) cfg (rs(code \<mapsto> fst ?n)) q = Some (rs', kept)"
        by (simp add: range_order_def case_prod_beta)
      with wf show ?thesis by (rule Cons.IH)
    next
      case False
      with Cons.prems(2) None obtain kept' where
        "promotion_pass ?e1 cfg rs q = Some (rs', kept')"
        by (auto simp: range_order_def split: option.splits)
      with Cons.prems(1) show ?thesis by (rule Cons.IH)
    qed
  qed
qed

lemma subseq_Username_distinct:
  assumes "subseq kept q" and "distinct (map Username q)"
  shows "distinct (map Username kept)"
proof -
  from assms(1) have "subseq (map Username kept) (map Username q)" by (rule subseq_map)
  then obtain N where "map Username kept = nths (map Username q) N"
    by (auto simp: subseq_conv_nths)
  with assms(2) show ?thesis by simp
qed

lemma tryAssignQueuedUsers_wf:
  assumes "state_wf s" and "tryAssignQueuedUsers e s = Some s'"
  shows "state_wf s'"
proof -
  from assms(2) obtain rs' kept where
    p: "promotion_pass e (config s) (rooms s) (queue s) = Some (rs', kept)"
    and s': "s' = s\<lparr>rooms := rs', queue := kept\<rparr>"
    by (auto simp: tryAssignQueuedUsers_pass split: option.splits)
  from assms(1) p have "rooms_wf rs'" by (auto simp: state_wf_def dest: promotion_pass_wf)
  moreover from p have "subseq kept (queue s)" by (rule promotion_pass_subseq)
  with assms(1) have "distinct (map Username kept)"
    by (auto simp: state_wf_def intro: subseq_Username_distinct)
  ultimately show ?thesis using s' by (simp add: state_wf_def)
qed

lemma cleanupExpiredQueueEntries_wf:
  "state_wf s \<Longrightarrow> state_wf (cleanupExpiredQueueEntries e s)"
  by (simp add: state_wf_def cleanupExpiredQueueEntries_def time_Now_def
      validEntries_loop_filter distinct_map_filter)

lemma cleanupLonelyRooms_wf: "state_wf s \<Longrightarrow> state_wf (cleanupLonelyRooms e s)"
proof -
  assume wf: "state_wf s"
  let ?rs = "rooms (cleanupLonelyRooms e s)"
  have sub: "\<And>k r. ?rs k = Some r \<Longrightarrow> rooms s k = Some r"
    by (auto simp: cleanupLonelyRooms_def time_Now_def range_order_def delete_loop_apply
        split: if_splits)
  then have "dom ?rs \<subseteq> dom (rooms s)" by auto
  with wf have "finite (dom ?rs)" by (auto simp: state_wf_def rooms_wf_def intro: finite_subset)
  moreover from wf sub have "\<forall>k r. ?rs k = Some r \<longrightarrow> Code r = k"
    by (auto simp: state_wf_def rooms_wf_def)
  moreover have "queue (cleanupLonelyRooms e s) = queue s"
    by (simp add: cleanupLonelyRooms_def time_Now_def range_order_def)
  ultimately show ?thesis using wf by (simp add: state_wf_def rooms_wf_def)
qed

lemma reachable_state_wf: "reachable cfg s \<Longrightarrow> state_wf s"
proof (induction rule: reachable.induct)
  case reach_new
  show ?case by (simp add: NewChatService_def state_wf_def rooms_wf_def)
next
  case (reach_StartChat s e username resp s')
  then show ?case by (auto dest: StartChat_wf)
next
  case (reach_JoinRoom s e roomCode username s')
  then show ?case by (auto dest: JoinRoom_wf)
next
  case (reach_LeaveRoom s e roomCode username)
  then show ?case by (simp add: LeaveRoom_wf)
next
  case (reach_tryAssignQueuedUsers s e s')
  then show ?case by (auto dest: tryAssignQueuedUsers_wf)
next
  case (reach_cleanupExpiredQueueEntries s e)
  then show ?case by (simp add: cleanupExpiredQueueEntries_wf)
next
  case (reach_cleanupLonelyRooms s e)
  then show ?case by (simp add: cleanupLonelyRooms_wf)
qed

lemma reachable_config: "reachable cfg s \<Longrightarrow> config s = cfg"
proof (induction rule: reachable.induct)
  case reach_new
  show ?case by (simp add: NewChatService_def)
next
  case (reach_StartChat s e username resp s')
  let ?e = "e\<lparr>orders := \<lambda>n. orders e (Suc (Suc n))\<rparr>"
  from addToQueue_queued[of ?e s username] obtain r q where
    "addToQueue ?e s username = (r, q)" "config q = config s" by blast
  with reach_StartChat show ?case
    by (auto simp: StartChat_def range_order_def case_prod_beta
        split: option.splits if_splits)
next
  case (reach_JoinRoom s e roomCode username s')
  then show ?case
    by (auto simp: JoinRoom_def case_prod_beta split: option.splits if_splits)
next
  case (reach_LeaveRoom s e roomCode username)
  then show ?case by (simp add: LeaveRoom_def case_prod_beta split: option.splits)
next
  case (reach_tryAssignQueuedUsers s e s')
  then show ?case by (auto simp: tryAssignQueuedUsers_pass split: option.splits)
next
  case (reach_cleanupExpiredQueueEntries s e)
  then show ?case by (simp add: cleanupExpiredQueueEntries_def time_Now_def)
next
  case (reach_cleanupLonelyRooms s e)
  then show ?case by (simp add: cleanupLonelyRooms_def time_Now_def range_order_def)
qed

end
